theory Spec2Isabelle
  imports Complex_Main "HOL-Library.Signed_Division"
begin

section \<open>Data model (sketcher\_native.h)\<close>

text \<open>
  The three FFI structs become records. The C field names \<open>x\<close>, \<open>y\<close>, \<open>alpha\<close> occur in
  more than one struct, so every field carries the prefix of its struct:
  \<open>PointData.x\<close> is \<open>pt_x\<close>, \<open>CalligraphySegment.alpha\<close> is \<open>seg_alpha\<close>,
  \<open>Vertex2D.alpha\<close> is \<open>vtx_alpha\<close>, \<open>Vector2D.x\<close> is \<open>vec_x\<close>.

  The program is modelled twice. In the first model, which this section and the sections
  up to the segments both loops visit define, a C \<open>double\<close> is a \<open>real\<close>: arithmetic is
  exact, there is no rounding, no overflow to infinity and no NaN. It serves the properties
  of what is read, written and counted: the elements that are read and stored and their
  order, the counts returned, the faults, the samples that are copied unchanged, that both
  loops evaluate the same thickness expression, and the geometry of a quad in exact
  arithmetic. In the second model, from the section on IEEE 754 doubles on, a \<open>double\<close> is
  a binary64 value; it serves the properties of the values the code computes and compares:
  the spacing test, the deviation test, the floor and the finiteness of the thickness, and
  the range of alpha.

  A C \<open>int\<close> is modelled as an \<open>int\<close>; the counters of
  the code stay between 0 and the capacities they are compared with, so no \<open>int\<close>
  arithmetic of the code leaves the 32-bit range as long as the capacities are at least
  6 below \<open>INT_MAX\<close>. The \<open>unsigned int\<close> mesh indices are modelled as \<open>int\<close> as well:
  they are vertex counts plus at most 3.
\<close>

record PointData =
  pt_x :: real
  pt_y :: real
  pt_pressure :: real
  pt_timestamp :: real
  pt_tiltX :: real
  pt_tiltY :: real

record CalligraphySegment =
  seg_x1 :: real
  seg_y1 :: real
  seg_x2 :: real
  seg_y2 :: real
  seg_thickness :: real
  seg_alpha :: real

record Vertex2D =
  vtx_x :: real
  vtx_y :: real
  vtx_alpha :: real

section \<open>Memory: pointers, reads and writes\<close>

text \<open>
  A pointer argument is either null (\<open>None\<close>) or points at an array whose elements are
  the list (\<open>Some xs\<close>). A call returns \<open>None\<close> when it faults, that is when it
  dereferences a null pointer or accesses an array outside its bounds (undefined behaviour in
  C++), and \<open>Some\<close> of its return value and of the arrays it may have written otherwise.
  The arrays of one call are distinct objects: no output array overlaps an input array.
\<close>

type_synonym 'a ptr = "'a list option"

definition rd :: "'a ptr \<Rightarrow> int \<Rightarrow> 'a option" where
  "rd p i =
     (case p of
        None \<Rightarrow> None
      | Some xs \<Rightarrow> if 0 \<le> i \<and> i < int (length xs) then Some (xs ! nat i) else None)"

definition wr :: "'a ptr \<Rightarrow> int \<Rightarrow> 'a \<Rightarrow> 'a ptr option" where
  "wr p i v =
     (case p of
        None \<Rightarrow> None
      | Some xs \<Rightarrow> if 0 \<le> i \<and> i < int (length xs) then Some (Some (xs[nat i := v])) else None)"

text \<open>The samples a call has emitted: the first \<open>n\<close> elements of the output array.\<close>

definition emitted :: "int \<Rightarrow> 'a ptr \<Rightarrow> 'a list" where
  "emitted n p = (case p of None \<Rightarrow> [] | Some xs \<Rightarrow> take (nat n) xs)"

section \<open>Resampling\<close>

definition dist2 :: "real \<Rightarrow> real \<Rightarrow> real \<Rightarrow> real \<Rightarrow> real" where
  "dist2 x1 y1 x2 y2 = (let dx = x2 - x1; dy = y2 - y1 in dx * dx + dy * dy)"

text \<open>
  The \<open>for\<close> loop of \<open>resample_stroke_points\<close> (lines 244 to 250); its state is the index
  \<open>i\<close>, the count \<open>out\<close>, the sample \<open>last\<close> (here \<open>last_pt\<close>) and the
  output array. The variables \<open>accx\<close> and \<open>accy\<close> of line 243 are never read.
\<close>

function resample_loop ::
  "PointData ptr \<Rightarrow> int \<Rightarrow> real \<Rightarrow> int \<Rightarrow> int \<Rightarrow> int \<Rightarrow> PointData \<Rightarrow> PointData ptr
     \<Rightarrow> (int \<times> PointData ptr) option" where
  "resample_loop input_points input_count spacing2 max_output i out last_pt output_points =
     (if i < input_count \<and> out < max_output then
        (case rd input_points i of
           None \<Rightarrow> None
         | Some p \<Rightarrow>
             if dist2 (pt_x last_pt) (pt_y last_pt) (pt_x p) (pt_y p) \<ge> spacing2 then
               (case wr output_points out p of
                  None \<Rightarrow> None
                | Some output_points' \<Rightarrow>
                    resample_loop input_points input_count spacing2 max_output
                      (i + 1) (out + 1) p output_points')
             else
               resample_loop input_points input_count spacing2 max_output
                 (i + 1) out last_pt output_points)
      else Some (out, output_points))"
  by pat_completeness auto
termination
  by (relation "measure (\<lambda>(input_points, input_count, spacing2, max_output, i, out, last_pt,
        output_points). nat (input_count - i))") auto

declare resample_loop.simps [simp del]

definition resample_stroke_points ::
  "PointData ptr \<Rightarrow> int \<Rightarrow> real \<Rightarrow> PointData ptr \<Rightarrow> int \<Rightarrow> (int \<times> PointData ptr) option" where
  "resample_stroke_points input_points input_count spacing output_points max_output =
     (if input_points = None \<or> output_points = None \<or> input_count \<le> 0 \<or> max_output \<le> 0
      then Some (0, output_points)
      else if input_count = 1 then
        (case rd input_points 0 of
           None \<Rightarrow> None
         | Some p0 \<Rightarrow>
             (case wr output_points 0 p0 of
                None \<Rightarrow> None
              | Some output_points' \<Rightarrow> Some (1, output_points')))
      else
        (let spacing2 = spacing * spacing in
         case rd input_points 0 of
           None \<Rightarrow> None
         | Some last_pt \<Rightarrow>
             (case wr output_points 0 last_pt of
                None \<Rightarrow> None
              | Some output_points1 \<Rightarrow>
                  (case resample_loop input_points input_count spacing2 max_output
                          1 1 last_pt output_points1 of
                     None \<Rightarrow> None
                   | Some (out, output_points2) \<Rightarrow>
                       if out < max_output then
                         (case rd input_points (input_count - 1) of
                            None \<Rightarrow> None
                          | Some pl \<Rightarrow>
                              (case wr output_points2 out pl of
                                 None \<Rightarrow> None
                               | Some output_points3 \<Rightarrow> Some (out + 1, output_points3)))
                       else Some (out, output_points2)))))"

section \<open>Smoothing\<close>

text \<open>
  The copy loop \<open>for (i = 0; i < c; i++) output_points[i] = input_points[i]\<close>, which
  \<open>smooth_stroke_points\<close> (line 176) and \<open>simplify_stroke_rdp\<close> (lines 307, 311 and 318)
  both contain. The input and the output array are distinct objects (no aliasing).
\<close>

function copy_loop :: "'a ptr \<Rightarrow> int \<Rightarrow> int \<Rightarrow> 'a ptr \<Rightarrow> 'a ptr option" where
  "copy_loop input_points copy_count i output_points =
     (if i < copy_count then
        (case rd input_points i of
           None \<Rightarrow> None
         | Some p \<Rightarrow>
             (case wr output_points i p of
                None \<Rightarrow> None
              | Some output_points' \<Rightarrow> copy_loop input_points copy_count (i + 1) output_points'))
      else Some output_points)"
  by pat_completeness auto
termination
  by (relation "measure (\<lambda>(input_points, copy_count, i, output_points). nat (copy_count - i))")
    auto

declare copy_loop.simps [simp del]

definition clamp :: "real \<Rightarrow> real \<Rightarrow> real \<Rightarrow> real" where
  "clamp v lo hi = (if v < lo then lo else if hi < v then hi else v)"

text \<open>
  The sample the loop body of \<open>smooth_stroke_points\<close> stores (lines 197 to 210);
  \<open>cur\<close> and \<open>nxt\<close> are the source's \<open>curr\<close> and \<open>next\<close>.
\<close>

definition smooth_point :: "real \<Rightarrow> real \<Rightarrow> PointData \<Rightarrow> PointData \<Rightarrow> PointData \<Rightarrow> PointData" where
  "smooth_point factor inv_factor prev cur nxt =
     (let smooth_x = factor * (pt_x prev + pt_x nxt) * 0.5 + inv_factor * pt_x cur;
          smooth_y = factor * (pt_y prev + pt_y nxt) * 0.5 + inv_factor * pt_y cur;
          smooth_pressure =
            factor * (pt_pressure prev + pt_pressure nxt) * 0.5 + inv_factor * pt_pressure cur
      in \<lparr>pt_x = smooth_x, pt_y = smooth_y, pt_pressure = smooth_pressure,
          pt_timestamp = pt_timestamp cur, pt_tiltX = pt_tiltX cur, pt_tiltY = pt_tiltY cur\<rparr>)"

function smooth_loop ::
  "PointData ptr \<Rightarrow> int \<Rightarrow> real \<Rightarrow> real \<Rightarrow> int \<Rightarrow> int \<Rightarrow> int \<Rightarrow> PointData ptr
     \<Rightarrow> (int \<times> PointData ptr) option" where
  "smooth_loop input_points input_count factor inv_factor max_output i output_count output_points =
     (if i < input_count - 1 \<and> output_count < max_output then
        (case rd input_points (i - 1) of
           None \<Rightarrow> None
         | Some prev \<Rightarrow>
             (case rd input_points i of
                None \<Rightarrow> None
              | Some cur \<Rightarrow>
                  (case rd input_points (i + 1) of
                     None \<Rightarrow> None
                   | Some nxt \<Rightarrow>
                       (case wr output_points output_count
                               (smooth_point factor inv_factor prev cur nxt) of
                          None \<Rightarrow> None
                        | Some output_points' \<Rightarrow>
                            smooth_loop input_points input_count factor inv_factor max_output
                              (i + 1) (output_count + 1) output_points'))))
      else Some (output_count, output_points))"
  by pat_completeness auto
termination
  by (relation "measure (\<lambda>(input_points, input_count, factor, inv_factor, max_output, i,
        output_count, output_points). nat (input_count - 1 - i))") auto

declare smooth_loop.simps [simp del]

definition smooth_stroke_points ::
  "PointData ptr \<Rightarrow> int \<Rightarrow> real \<Rightarrow> PointData ptr \<Rightarrow> int \<Rightarrow> (int \<times> PointData ptr) option" where
  "smooth_stroke_points input_points input_count smoothing_factor output_points max_output =
     (if input_count < 3 \<or> max_output \<le> 0 then
        (let copy_count = min input_count max_output in
         case copy_loop input_points copy_count 0 output_points of
           None \<Rightarrow> None
         | Some output_points' \<Rightarrow> Some (copy_count, output_points'))
      else
        (let factor = clamp smoothing_factor 0 1;
             inv_factor = 1 - factor in
         case rd input_points 0 of
           None \<Rightarrow> None
         | Some p0 \<Rightarrow>
             (case wr output_points 0 p0 of
                None \<Rightarrow> None
              | Some output_points1 \<Rightarrow>
                  (case smooth_loop input_points input_count factor inv_factor max_output
                          1 1 output_points1 of
                     None \<Rightarrow> None
                   | Some (output_count, output_points2) \<Rightarrow>
                       if output_count < max_output then
                         (case rd input_points (input_count - 1) of
                            None \<Rightarrow> None
                          | Some pl \<Rightarrow>
                              (case wr output_points2 output_count pl of
                                 None \<Rightarrow> None
                               | Some output_points3 \<Rightarrow>
                                   Some (output_count + 1, output_points3)))
                       else Some (output_count, output_points2)))))"

section \<open>Velocity\<close>

function velocity_loop ::
  "PointData ptr \<Rightarrow> int \<Rightarrow> int \<Rightarrow> int \<Rightarrow> int \<Rightarrow> real ptr \<Rightarrow> (int \<times> real ptr) option" where
  "velocity_loop points point_count max_output i out out_velocities =
     (if i < point_count \<and> out < max_output then
        (case rd points (i - 1) of
           None \<Rightarrow> None
         | Some a \<Rightarrow>
             (case rd points i of
                None \<Rightarrow> None
              | Some b \<Rightarrow>
                  (case wr out_velocities out
                          (sqrt (dist2 (pt_x a) (pt_y a) (pt_x b) (pt_y b))
                             / max (1 / 10 ^ 6) (pt_timestamp b - pt_timestamp a)) of
                     None \<Rightarrow> None
                   | Some out_velocities' \<Rightarrow>
                       velocity_loop points point_count max_output (i + 1) (out + 1)
                         out_velocities')))
      else Some (out, out_velocities))"
  by pat_completeness auto
termination
  by (relation "measure (\<lambda>(points, point_count, max_output, i, out, out_velocities).
        nat (point_count - i))") auto

declare velocity_loop.simps [simp del]

definition compute_stroke_velocity ::
  "PointData ptr \<Rightarrow> int \<Rightarrow> real ptr \<Rightarrow> int \<Rightarrow> (int \<times> real ptr) option" where
  "compute_stroke_velocity points point_count out_velocities max_output =
     (if points = None \<or> out_velocities = None \<or> point_count < 2 \<or> max_output \<le> 0
      then Some (0, out_velocities)
      else velocity_loop points point_count max_output 1 0 out_velocities)"

section \<open>Simplification (Ramer--Douglas--Peucker)\<close>

text \<open>
  The squared distance \<open>d2\<close> of \<open>P\<close> from its projection on the segment from \<open>A\<close> along
  \<open>(vx, vy)\<close>, as the body of the scan loop of \<open>rdp\<close> computes it (lines 283 to 287).
\<close>

definition deviation2 :: "PointData \<Rightarrow> real \<Rightarrow> real \<Rightarrow> real \<Rightarrow> PointData \<Rightarrow> real" where
  "deviation2 A vx vy vlen2 P =
     (let t = (if vlen2 > 1 / 10 ^ 12
               then ((pt_x P - pt_x A) * vx + (pt_y P - pt_y A) * vy) / vlen2 else 0);
          t = max 0 (min 1 t);
          projx = pt_x A + t * vx;
          projy = pt_y A + t * vy
      in dist2 (pt_x P) (pt_y P) projx projy)"

text \<open>The scan loop of \<open>rdp\<close> (lines 281 to 289); it returns \<open>idx\<close> and \<open>maxd\<close>.\<close>

function rdp_scan ::
  "PointData list \<Rightarrow> PointData \<Rightarrow> real \<Rightarrow> real \<Rightarrow> real \<Rightarrow> int \<Rightarrow> int \<Rightarrow> int \<Rightarrow> real
     \<Rightarrow> (int \<times> real) option" where
  "rdp_scan pts A vx vy vlen2 e i idx maxd =
     (if i < e then
        (case rd (Some pts) i of
           None \<Rightarrow> None
         | Some P \<Rightarrow>
             if deviation2 A vx vy vlen2 P > maxd
             then rdp_scan pts A vx vy vlen2 e (i + 1) i (deviation2 A vx vy vlen2 P)
             else rdp_scan pts A vx vy vlen2 e (i + 1) idx maxd)
      else Some (idx, maxd))"
  by pat_completeness auto
termination
  by (relation "measure (\<lambda>(pts, A, vx, vy, vlen2, e, i, idx, maxd). nat (e - i))") auto

declare rdp_scan.simps [simp del]

lemma rdp_scan_idx:
  "rdp_scan pts A vx vy vlen2 e i idx maxd = Some (idx', maxd') \<Longrightarrow>
     idx' = idx \<or> (i \<le> idx' \<and> idx' < e)"
proof (induction pts A vx vy vlen2 e i idx maxd rule: rdp_scan.induct)
  case (1 pts A vx vy vlen2 e i idx maxd)
  note unfold = rdp_scan.simps [of pts A vx vy vlen2 e i idx maxd]
  show ?case
  proof (cases "i < e")
    case False
    with "1.prems" unfold show ?thesis by simp
  next
    case True
    with "1.prems" unfold obtain P where P: "rd (Some pts) i = Some P"
      by (cases "rd (Some pts) i") auto
    show ?thesis
    proof (cases "deviation2 A vx vy vlen2 P > maxd")
      case big: True
      with "1.prems" unfold True P
      have "rdp_scan pts A vx vy vlen2 e (i + 1) i (deviation2 A vx vy vlen2 P)
              = Some (idx', maxd')"
        by simp
      from "1.IH"(1) [OF True P big this] True show ?thesis by auto
    next
      case small: False
      with "1.prems" unfold True P
      have "rdp_scan pts A vx vy vlen2 e (i + 1) idx maxd = Some (idx', maxd')"
        by simp
      from "1.IH"(2) [OF True P small this] show ?thesis by auto
    qed
  qed
qed

text \<open>
  The recursive helper \<open>rdp\<close> (lines 274 to 295). The vector \<open>out\<close> it appends to is passed
  in and returned.
\<close>

function rdp ::
  "PointData list \<Rightarrow> int \<Rightarrow> int \<Rightarrow> real \<Rightarrow> PointData list \<Rightarrow> PointData list option" where
  "rdp pts s e eps2 out =
     (if e \<le> s + 1 then Some out
      else
        (case rd (Some pts) s of
           None \<Rightarrow> None
         | Some A \<Rightarrow>
             (case rd (Some pts) e of
                None \<Rightarrow> None
              | Some B \<Rightarrow>
                  (case rdp_scan pts A (pt_x B - pt_x A) (pt_y B - pt_y A)
                          ((pt_x B - pt_x A) * (pt_x B - pt_x A)
                             + (pt_y B - pt_y A) * (pt_y B - pt_y A))
                          e (s + 1) (- 1) 0 of
                     None \<Rightarrow> None
                   | Some (idx, maxd) \<Rightarrow>
                       if maxd > eps2 \<and> idx \<noteq> - 1 then
                         (case rdp pts s idx eps2 out of
                            None \<Rightarrow> None
                          | Some out1 \<Rightarrow>
                              (case rd (Some pts) idx of
                                 None \<Rightarrow> None
                               | Some Q \<Rightarrow> rdp pts idx e eps2 (out1 @ [Q])))
                       else Some out))))"
  by pat_completeness auto
termination
proof (relation "measure (\<lambda>(pts, s, e, eps2, out). nat (e - s))", goal_cases)
  case 1
  show ?case by simp
next
  case (2 pts s e eps2 out A B r idx maxd)
  then show ?case
    by (auto dest: rdp_scan_idx)
next
  case (3 pts s e eps2 out A B r idx maxd out1 Q)
  then show ?case
    by (auto dest: rdp_scan_idx)
qed

declare rdp.simps [simp del]

text \<open>The value-initialised element of \<open>std::vector<PointData> pts(input_count)\<close>.\<close>

definition zero_point :: PointData where
  "zero_point =
     \<lparr>pt_x = 0, pt_y = 0, pt_pressure = 0, pt_timestamp = 0, pt_tiltX = 0, pt_tiltY = 0\<rparr>"

definition simplify_stroke_rdp ::
  "PointData ptr \<Rightarrow> int \<Rightarrow> real \<Rightarrow> PointData ptr \<Rightarrow> int \<Rightarrow> (int \<times> PointData ptr) option" where
  "simplify_stroke_rdp input_points input_count epsilon output_points max_output =
     (if input_points = None \<or> output_points = None \<or> input_count = 0 \<or> max_output \<le> 0
      then Some (0, output_points)
      else if input_count \<le> 2 then
        (let c = min input_count max_output in
         case copy_loop input_points c 0 output_points of
           None \<Rightarrow> None
         | Some output_points' \<Rightarrow> Some (c, output_points'))
      else
        (case copy_loop input_points input_count 0
                (Some (replicate (nat input_count) zero_point)) of
           None \<Rightarrow> None
         | Some None \<Rightarrow> None
         | Some (Some pts) \<Rightarrow>
             (case rdp pts 0 (input_count - 1) (epsilon * epsilon) [hd pts] of
                None \<Rightarrow> None
              | Some out1 \<Rightarrow>
                  (let out = out1 @ [last pts];
                       c = min (int (length out)) max_output in
                   case copy_loop (Some out) c 0 output_points of
                     None \<Rightarrow> None
                   | Some output_points' \<Rightarrow> Some (c, output_points')))))"

section \<open>Trigonometry cache (FastTrig)\<close>

text \<open>
  \<open>initialize\<close> fills both tables once and every lookup calls it first, so a lookup always
  reads the filled table: the tables are functions of the index. \<open>M_PI\<close> is \<open>pi\<close>.
  \<open>static_cast<int>\<close> truncates towards zero (\<open>trunc_to_int\<close>; the conversion is undefined
  in C++ when the truncated value does not fit an \<open>int\<close>, which the model leaves out), and
  \<open>%\<close> is the truncating remainder \<open>smod\<close>.
\<close>

definition TABLE_SIZE :: int where
  "TABLE_SIZE = 3600"

definition M_PI :: real where
  "M_PI = pi"

definition sin_table :: "int \<Rightarrow> real" where
  "sin_table i = sin ((real_of_int i * M_PI) / (real_of_int TABLE_SIZE / 2))"

definition cos_table :: "int \<Rightarrow> real" where
  "cos_table i = cos ((real_of_int i * M_PI) / (real_of_int TABLE_SIZE / 2))"

definition trunc_to_int :: "real \<Rightarrow> int" where
  "trunc_to_int r = (if 0 \<le> r then \<lfloor>r\<rfloor> else \<lceil>r\<rceil>)"

definition fast_sin :: "real \<Rightarrow> real" where
  "fast_sin angle_rad =
     (let index = trunc_to_int ((angle_rad * real_of_int TABLE_SIZE) / (2 * M_PI)) smod TABLE_SIZE;
          index = (if index < 0 then index + TABLE_SIZE else index)
      in sin_table index)"

definition fast_cos :: "real \<Rightarrow> real" where
  "fast_cos angle_rad =
     (let index = trunc_to_int ((angle_rad * real_of_int TABLE_SIZE) / (2 * M_PI)) smod TABLE_SIZE;
          index = (if index < 0 then index + TABLE_SIZE else index)
      in cos_table index)"

section \<open>Vector primitives (Vector2D)\<close>

text \<open>
  The operators \<open>-\<close>, \<open>+\<close>, \<open>*\<close> and \<open>/\<close> of the struct are \<open>vec_minus\<close>,
  \<open>vec_plus\<close>, \<open>vec_times\<close> and \<open>vec_divide\<close>. Its methods \<open>length\<close>,
  \<open>normalized\<close> and \<open>dot\<close> are called by no exported operation and are left out.
\<close>

record Vector2D =
  vec_x :: real
  vec_y :: real

definition vec_minus :: "Vector2D \<Rightarrow> Vector2D \<Rightarrow> Vector2D" where
  "vec_minus u other = \<lparr>vec_x = vec_x u - vec_x other, vec_y = vec_y u - vec_y other\<rparr>"

definition vec_plus :: "Vector2D \<Rightarrow> Vector2D \<Rightarrow> Vector2D" where
  "vec_plus u other = \<lparr>vec_x = vec_x u + vec_x other, vec_y = vec_y u + vec_y other\<rparr>"

definition vec_times :: "Vector2D \<Rightarrow> real \<Rightarrow> Vector2D" where
  "vec_times u scalar = \<lparr>vec_x = vec_x u * scalar, vec_y = vec_y u * scalar\<rparr>"

definition vec_divide :: "Vector2D \<Rightarrow> real \<Rightarrow> Vector2D" where
  "vec_divide u scalar = \<lparr>vec_x = vec_x u / scalar, vec_y = vec_y u / scalar\<rparr>"

definition length_squared :: "Vector2D \<Rightarrow> real" where
  "length_squared u = vec_x u * vec_x u + vec_y u * vec_y u"

definition cross :: "Vector2D \<Rightarrow> Vector2D \<Rightarrow> real" where
  "cross u other = vec_x u * vec_y other - vec_y u * vec_x other"

section \<open>Calligraphy segment calculator\<close>

text \<open>
  The thickness the loop body of \<open>calculate_calligraphy_segments\<close> computes for the segment
  from \<open>a\<close> to \<open>b\<close> (lines 130 to 150, with the constants of lines 120 to 123); \<open>len\<close> is
  the source's \<open>length\<close>.
\<close>

definition segment_thickness :: "Vector2D \<Rightarrow> real \<Rightarrow> PointData \<Rightarrow> PointData \<Rightarrow> real" where
  "segment_thickness nib_dir thickness_base a b =
     (let min_thickness = 0.6;
          thickness_range = 0.9;
          thickness_offset = 0.35;
          seg = \<lparr>vec_x = pt_x b - pt_x a, vec_y = pt_y b - pt_y a\<rparr>;
          length_sq = length_squared seg;
          len = sqrt length_sq;
          tangent = vec_divide seg len;
          cross_product = \<bar>cross tangent nib_dir\<bar>;
          avg_pressure = (pt_pressure a + pt_pressure b) * 0.5
      in max min_thickness
           (thickness_base * (thickness_offset + thickness_range * cross_product) * avg_pressure))"

function calc_loop ::
  "PointData ptr \<Rightarrow> int \<Rightarrow> real \<Rightarrow> Vector2D \<Rightarrow> real \<Rightarrow> int \<Rightarrow> int \<Rightarrow> int
     \<Rightarrow> CalligraphySegment ptr \<Rightarrow> (int \<times> CalligraphySegment ptr) option" where
  "calc_loop points point_count opacity nib_dir thickness_base max_segments
       i segment_count output_segments =
     (if i < point_count - 1 \<and> segment_count < max_segments then
        (case rd points i of
           None \<Rightarrow> None
         | Some a \<Rightarrow>
             (case rd points (i + 1) of
                None \<Rightarrow> None
              | Some b \<Rightarrow>
                  if length_squared \<lparr>vec_x = pt_x b - pt_x a, vec_y = pt_y b - pt_y a\<rparr>
                       < 1 / 10 ^ 12
                  then calc_loop points point_count opacity nib_dir thickness_base max_segments
                         (i + 1) segment_count output_segments
                  else
                    (case wr output_segments segment_count
                            \<lparr>seg_x1 = pt_x a, seg_y1 = pt_y a, seg_x2 = pt_x b, seg_y2 = pt_y b,
                             seg_thickness = segment_thickness nib_dir thickness_base a b,
                             seg_alpha = opacity\<rparr> of
                       None \<Rightarrow> None
                     | Some output_segments' \<Rightarrow>
                         calc_loop points point_count opacity nib_dir thickness_base max_segments
                           (i + 1) (segment_count + 1) output_segments')))
      else Some (segment_count, output_segments))"
  by pat_completeness auto
termination
  by (relation "measure (\<lambda>(points, point_count, opacity, nib_dir, thickness_base, max_segments,
        i, segment_count, output_segments). nat (point_count - 1 - i))") auto

declare calc_loop.simps [simp del]

definition calculate_calligraphy_segments ::
  "PointData ptr \<Rightarrow> int \<Rightarrow> real \<Rightarrow> real \<Rightarrow> real \<Rightarrow> real \<Rightarrow> CalligraphySegment ptr \<Rightarrow> int
     \<Rightarrow> (int \<times> CalligraphySegment ptr) option" where
  "calculate_calligraphy_segments points point_count stroke_width opacity nib_angle_deg
       nib_width_factor output_segments max_segments =
     (if point_count < 2 \<or> max_segments \<le> 0 then Some (0, output_segments)
      else
        (let nib_angle_rad = nib_angle_deg * M_PI / 180;
             nib_dir = \<lparr>vec_x = fast_cos nib_angle_rad, vec_y = fast_sin nib_angle_rad\<rparr>;
             clamped_width_factor = clamp nib_width_factor 0.3 2.5;
             thickness_base = stroke_width * clamped_width_factor
         in calc_loop points point_count opacity nib_dir thickness_base max_segments
              0 0 output_segments))"

section \<open>Mesh builder\<close>

text \<open>
  The thickness the loop body of \<open>build_calligraphy_mesh\<close> computes for the segment from \<open>a\<close>
  to \<open>b\<close> (lines 354 to 361, with the constants of lines 345 and 346).
\<close>

definition mesh_thickness :: "Vector2D \<Rightarrow> real \<Rightarrow> PointData \<Rightarrow> PointData \<Rightarrow> real" where
  "mesh_thickness nib_dir thickness_base a b =
     (let thickness_range = 0.9;
          thickness_offset = 0.35;
          seg = \<lparr>vec_x = pt_x b - pt_x a, vec_y = pt_y b - pt_y a\<rparr>;
          len2 = length_squared seg;
          len = sqrt len2;
          t = vec_divide seg len;
          cross_p = \<bar>cross t nib_dir\<bar>;
          pressure = (pt_pressure a + pt_pressure b) * 0.5
      in max 0.6 (thickness_base * (thickness_offset + thickness_range * cross_p) * pressure))"

text \<open>
  The four vertices \<open>a_l\<close>, \<open>a_r\<close>, \<open>b_l\<close>, \<open>b_r\<close> the loop body stores for the segment, in the
  order it stores them (lines 354 to 381).
\<close>

definition quad_vertices ::
  "Vector2D \<Rightarrow> real \<Rightarrow> real \<Rightarrow> PointData \<Rightarrow> PointData \<Rightarrow> Vertex2D list" where
  "quad_vertices nib_dir thickness_base opacity a b =
     (let seg = \<lparr>vec_x = pt_x b - pt_x a, vec_y = pt_y b - pt_y a\<rparr>;
          len = sqrt (length_squared seg);
          t = vec_divide seg len;
          pressure = (pt_pressure a + pt_pressure b) * 0.5;
          thickness = mesh_thickness nib_dir thickness_base a b;
          half_w = 0.5 * thickness;
          n = \<lparr>vec_x = - vec_y t, vec_y = vec_x t\<rparr>;
          a_l = vec_minus \<lparr>vec_x = pt_x a, vec_y = pt_y a\<rparr> (vec_times n half_w);
          a_r = vec_plus \<lparr>vec_x = pt_x a, vec_y = pt_y a\<rparr> (vec_times n half_w);
          b_l = vec_minus \<lparr>vec_x = pt_x b, vec_y = pt_y b\<rparr> (vec_times n half_w);
          b_r = vec_plus \<lparr>vec_x = pt_x b, vec_y = pt_y b\<rparr> (vec_times n half_w);
          va = clamp (opacity * pressure) 0 1
      in [\<lparr>vtx_x = vec_x a_l, vtx_y = vec_y a_l, vtx_alpha = va\<rparr>,
          \<lparr>vtx_x = vec_x a_r, vtx_y = vec_y a_r, vtx_alpha = va\<rparr>,
          \<lparr>vtx_x = vec_x b_l, vtx_y = vec_y b_l, vtx_alpha = va\<rparr>,
          \<lparr>vtx_x = vec_x b_r, vtx_y = vec_y b_r, vtx_alpha = va\<rparr>])"

text \<open>The six indices stored for a quad whose first vertex is \<open>base\<close> (lines 384 to 390).\<close>

definition quad_indices :: "int \<Rightarrow> int list" where
  "quad_indices base = [base + 0, base + 2, base + 1, base + 1, base + 2, base + 3]"

text \<open>Storing \<open>vs\<close> at the consecutive indices \<open>i\<close>, \<open>i + 1\<close>, ... of an array.\<close>

fun wr_list :: "'a ptr \<Rightarrow> int \<Rightarrow> 'a list \<Rightarrow> 'a ptr option" where
  "wr_list p i [] = Some p"
| "wr_list p i (v # vs) =
     (case wr p i v of None \<Rightarrow> None | Some p' \<Rightarrow> wr_list p' (i + 1) vs)"

function mesh_loop ::
  "PointData ptr \<Rightarrow> int \<Rightarrow> real \<Rightarrow> Vector2D \<Rightarrow> real \<Rightarrow> int \<Rightarrow> int \<Rightarrow> int \<Rightarrow> int \<Rightarrow> int
     \<Rightarrow> Vertex2D ptr \<Rightarrow> int ptr \<Rightarrow> (int \<times> int \<times> Vertex2D ptr \<times> int ptr) option" where
  "mesh_loop points point_count opacity nib_dir thickness_base max_vertices max_indices
       i vcount icount out_vertices out_indices =
     (if i < point_count - 1 then
        (case rd points i of
           None \<Rightarrow> None
         | Some a \<Rightarrow>
             (case rd points (i + 1) of
                None \<Rightarrow> None
              | Some b \<Rightarrow>
                  if length_squared \<lparr>vec_x = pt_x b - pt_x a, vec_y = pt_y b - pt_y a\<rparr>
                       < 1 / 10 ^ 12
                  then mesh_loop points point_count opacity nib_dir thickness_base
                         max_vertices max_indices (i + 1) vcount icount out_vertices out_indices
                  else if vcount + 4 > max_vertices \<or> icount + 6 > max_indices
                  then Some (vcount, icount, out_vertices, out_indices)
                  else
                    (case wr_list out_vertices vcount
                            (quad_vertices nib_dir thickness_base opacity a b) of
                       None \<Rightarrow> None
                     | Some out_vertices' \<Rightarrow>
                         (case wr_list out_indices icount (quad_indices vcount) of
                            None \<Rightarrow> None
                          | Some out_indices' \<Rightarrow>
                              mesh_loop points point_count opacity nib_dir thickness_base
                                max_vertices max_indices (i + 1) (vcount + 4) (icount + 6)
                                out_vertices' out_indices'))))
      else Some (vcount, icount, out_vertices, out_indices))"
  by pat_completeness auto
termination
  by (relation "measure (\<lambda>(points, point_count, opacity, nib_dir, thickness_base, max_vertices,
        max_indices, i, vcount, icount, out_vertices, out_indices). nat (point_count - 1 - i))")
    auto

declare mesh_loop.simps [simp del]

text \<open>
  \<open>out_index_count\<close> points at one \<open>int\<close>: \<open>None\<close> is the null pointer, \<open>Some v\<close> a cell
  holding \<open>v\<close>. The call returns its return value, the two arrays and the cell.
\<close>

definition build_calligraphy_mesh ::
  "PointData ptr \<Rightarrow> int \<Rightarrow> real \<Rightarrow> real \<Rightarrow> real \<Rightarrow> real \<Rightarrow> Vertex2D ptr \<Rightarrow> int \<Rightarrow> int ptr \<Rightarrow> int
     \<Rightarrow> int option \<Rightarrow> (int \<times> Vertex2D ptr \<times> int ptr \<times> int option) option" where
  "build_calligraphy_mesh points point_count stroke_width opacity nib_angle_deg nib_width_factor
       out_vertices max_vertices out_indices max_indices out_index_count =
     (if points = None \<or> out_vertices = None \<or> out_indices = None \<or> out_index_count = None
      then Some (0, out_vertices, out_indices, out_index_count)
      else if point_count < 2 \<or> max_vertices < 4 \<or> max_indices < 6
      then Some (0, out_vertices, out_indices, Some 0)
      else
        (let nib_angle_rad = nib_angle_deg * M_PI / 180;
             nib_dir = \<lparr>vec_x = fast_cos nib_angle_rad, vec_y = fast_sin nib_angle_rad\<rparr>;
             clamped_width_factor = clamp nib_width_factor 0.3 2.5;
             thickness_base = stroke_width * clamped_width_factor
         in case mesh_loop points point_count opacity nib_dir thickness_base
                   max_vertices max_indices 0 0 0 out_vertices out_indices of
              None \<Rightarrow> None
            | Some (vcount, icount, out_vertices', out_indices') \<Rightarrow>
                Some (vcount, out_vertices', out_indices', Some icount)))"

section \<open>The segments both loops visit\<close>

text \<open>
  Both \<open>calculate_calligraphy_segments\<close> (line 134) and \<open>build_calligraphy_mesh\<close>
  (line 356) skip a pair of consecutive samples whose squared distance is below \<open>1e-12\<close>.
  \<open>live_segments\<close> lists the pairs of consecutive samples that are not skipped, in order;
  \<open>descriptor\<close> is the record line 153 stores for a pair, \<open>quad\<close> the four vertices
  lines 378 to 381 store for it, and \<open>quad_capacity\<close> the number of quads that still fit
  both output arrays.
\<close>

definition nondegenerate :: "PointData \<Rightarrow> PointData \<Rightarrow> bool" where
  "nondegenerate a b =
     (\<not> length_squared \<lparr>vec_x = pt_x b - pt_x a, vec_y = pt_y b - pt_y a\<rparr> < 1 / 10 ^ 12)"

fun live_segments :: "PointData list \<Rightarrow> (PointData \<times> PointData) list" where
  "live_segments (a # b # ps) =
     (if nondegenerate a b then [(a, b)] else []) @ live_segments (b # ps)"
| "live_segments ps = []"

definition descriptor ::
  "Vector2D \<Rightarrow> real \<Rightarrow> real \<Rightarrow> PointData \<times> PointData \<Rightarrow> CalligraphySegment" where
  "descriptor nib_dir thickness_base opacity ab =
     \<lparr>seg_x1 = pt_x (fst ab), seg_y1 = pt_y (fst ab), seg_x2 = pt_x (snd ab),
      seg_y2 = pt_y (snd ab),
      seg_thickness = segment_thickness nib_dir thickness_base (fst ab) (snd ab),
      seg_alpha = opacity\<rparr>"

definition quad :: "Vector2D \<Rightarrow> real \<Rightarrow> real \<Rightarrow> PointData \<times> PointData \<Rightarrow> Vertex2D list" where
  "quad nib_dir thickness_base opacity ab =
     quad_vertices nib_dir thickness_base opacity (fst ab) (snd ab)"

definition quad_capacity :: "int \<Rightarrow> int \<Rightarrow> int \<Rightarrow> int \<Rightarrow> nat" where
  "quad_capacity max_vertices max_indices vcount icount =
     nat (min ((max_vertices - vcount) div 4) ((max_indices - icount) div 6))"

text \<open>
  The nib direction and the base thickness both operations compute from their parameters
  before the loop (lines 111 to 121 and 341 to 344), and the distance of two vertices.
\<close>

definition nib_direction :: "real \<Rightarrow> Vector2D" where
  "nib_direction nib_angle_deg =
     \<lparr>vec_x = fast_cos (nib_angle_deg * M_PI / 180), vec_y = fast_sin (nib_angle_deg * M_PI / 180)\<rparr>"

definition base_thickness :: "real \<Rightarrow> real \<Rightarrow> real" where
  "base_thickness stroke_width nib_width_factor = stroke_width * clamp nib_width_factor 0.3 2.5"

definition quad_width :: "Vertex2D \<Rightarrow> Vertex2D \<Rightarrow> real" where
  "quad_width v w = sqrt ((vtx_x w - vtx_x v) ^ 2 + (vtx_y w - vtx_y v) ^ 2)"

text \<open>Initial contents of output arrays in the examples.\<close>

definition blank_segment :: CalligraphySegment where
  "blank_segment =
     \<lparr>seg_x1 = 0, seg_y1 = 0, seg_x2 = 0, seg_y2 = 0, seg_thickness = 0, seg_alpha = 0\<rparr>"

definition blank_vertex :: Vertex2D where
  "blank_vertex = \<lparr>vtx_x = 0, vtx_y = 0, vtx_alpha = 0\<rparr>"

text \<open>Sample \<open>(x, y, pressure, timestamp)\<close> with zero tilt, as the examples of the spec write it.\<close>

definition sample :: "real \<Rightarrow> real \<Rightarrow> real \<Rightarrow> real \<Rightarrow> PointData" where
  "sample a b p t =
     \<lparr>pt_x = a, pt_y = b, pt_pressure = p, pt_timestamp = t, pt_tiltX = 0, pt_tiltY = 0\<rparr>"

section \<open>IEEE 754 doubles\<close>

text \<open>
  The definitions above compute with real numbers. The values the program emits are C
  \<open>double\<close>s: whether a sample passes the spacing test of line 246, whether a point deviates
  by more than \<open>epsilon\<close> (line 290), and whether a thickness or an alpha is finite, are
  decided by rounded arithmetic with overflow and NaN. The sections from here to the mesh
  builder \<open>build_calligraphy_mesh_d\<close> model the same code over IEEE 754 binary64 values; a
  definition with the suffix \<open>_d\<close> embeds the same source lines as the definition without
  it, with every arithmetic operation and comparison replaced by the one of the doubles.

  A double is a finite number, an infinity or NaN. \<open>Fin r\<close> is the finite double of value
  \<open>r\<close>; the arithmetic operations return \<open>Fin r\<close> only for \<open>r\<close> on the binary64 grid
  (see \<open>round_to_double\<close>), and a theorem stated for every value of the type holds in
  particular for every double. The model leaves out the sign of a zero (\<open>-0.0\<close> and
  \<open>+0.0\<close> are both \<open>Fin 0\<close>; they compare equal, and the code never divides by a value
  that can be zero: its divisors are constants, a length whose square is not below
  \<open>1e-12\<close>, and a \<open>vlen2\<close> above \<open>1e-12\<close>) and the payload of a NaN.

  \<open>round_to_double\<close> is rounding to nearest, ties to even: a nonzero real \<open>r\<close> in the
  binade \<open>2^e \<le> |r| < 2^(e+1)\<close> is rounded to the nearest multiple of \<open>2^(e-52)\<close>
  (of \<open>2^(-1074)\<close> below \<open>2^(-1022)\<close>, the subnormal range), and to the one with the
  even multiplier when two are equally near; a result of magnitude \<open>2^1024\<close> or more
  becomes an infinity. Every operation rounds once (no fused multiply-add, no extended
  precision).
\<close>

datatype double = Fin real | PInf | MInf | NaN

definition round_half_even :: "real \<Rightarrow> int" where
  "round_half_even q =
     (let f = \<lfloor>q\<rfloor>; d = q - of_int f
      in if d < 1 / 2 then f else if 1 / 2 < d then f + 1 else if even f then f else f + 1)"

definition exponent :: "real \<Rightarrow> int" where
  "exponent r = max \<lfloor>log 2 \<bar>r\<bar>\<rfloor> (- 1022)"

definition ulp :: "real \<Rightarrow> real" where
  "ulp r = 2 powi (exponent r - 52)"

definition overflow_bound :: real where
  "overflow_bound = 2 ^ 1024"

definition round_to_double :: "real \<Rightarrow> double" where
  "round_to_double r =
     (if r = 0 then Fin 0
      else let g = of_int (round_half_even (r / ulp r)) * ulp r
           in if overflow_bound \<le> g then PInf
              else if g \<le> - overflow_bound then MInf else Fin g)"

section \<open>Arithmetic on doubles\<close>

text \<open>
  \<open>fadd\<close>, \<open>fsub\<close>, \<open>fmul\<close> and \<open>fdiv\<close> are \<open>+\<close>, \<open>-\<close>, \<open>*\<close> and \<open>/\<close>;
  \<open>flt\<close>, \<open>fle\<close>, \<open>fgt\<close> and \<open>fge\<close> are \<open><\<close>, \<open><=\<close>, \<open>>\<close> and \<open>>=\<close>, all false
  when an operand is NaN; \<open>fneg\<close> is unary minus. \<open>c_sqrt\<close> is \<open>sqrt\<close>, which IEEE 754
  rounds correctly. \<open>std_abs\<close>, \<open>std_max\<close>, \<open>std_min\<close> and \<open>std_clamp\<close> are the
  library functions as the C++ standard defines them: \<open>std::max(a, b)\<close> is
  \<open>(a < b) ? b : a\<close>, \<open>std::min(a, b)\<close> is \<open>(b < a) ? b : a\<close> and
  \<open>std::clamp(v, lo, hi)\<close> is \<open>(v < lo) ? lo : (hi < v) ? hi : v\<close>, so that
  \<open>std::max(0.6, NaN)\<close> is \<open>0.6\<close> and \<open>std::clamp(NaN, 0.0, 1.0)\<close> is NaN.

  \<open>c_sin\<close> and \<open>c_cos\<close> stand for \<open>sin\<close> and \<open>cos\<close> of the C library, taken as
  correctly rounded; the theorems use nothing about the values in the trigonometry tables,
  and the examples read only entry 0, where \<open>sin 0 = 0\<close> and \<open>cos 0 = 1\<close> are exact.
  \<open>static_cast<int>\<close> truncates towards zero; for NaN, an infinity or a value outside the
  range of \<open>int\<close> the conversion is undefined in C++, and \<open>static_cast_int\<close> returns
  \<open>INT_MIN\<close> there, as the x86-64 conversion instruction does. The converted value only
  selects the table entry that is read.
\<close>

fun fneg :: "double \<Rightarrow> double" where
  "fneg (Fin x) = Fin (- x)"
| "fneg PInf = MInf"
| "fneg MInf = PInf"
| "fneg NaN = NaN"

fun fadd :: "double \<Rightarrow> double \<Rightarrow> double" where
  "fadd (Fin x) (Fin y) = round_to_double (x + y)"
| "fadd (Fin x) PInf = PInf"
| "fadd (Fin x) MInf = MInf"
| "fadd PInf (Fin y) = PInf"
| "fadd PInf PInf = PInf"
| "fadd PInf MInf = NaN"
| "fadd MInf (Fin y) = MInf"
| "fadd MInf PInf = NaN"
| "fadd MInf MInf = MInf"
| "fadd NaN b = NaN"
| "fadd a NaN = NaN"

definition fsub :: "double \<Rightarrow> double \<Rightarrow> double" where
  "fsub a b = fadd a (fneg b)"

fun fmul :: "double \<Rightarrow> double \<Rightarrow> double" where
  "fmul (Fin x) (Fin y) = round_to_double (x * y)"
| "fmul (Fin x) PInf = (if x = 0 then NaN else if 0 < x then PInf else MInf)"
| "fmul (Fin x) MInf = (if x = 0 then NaN else if 0 < x then MInf else PInf)"
| "fmul PInf (Fin y) = (if y = 0 then NaN else if 0 < y then PInf else MInf)"
| "fmul MInf (Fin y) = (if y = 0 then NaN else if 0 < y then MInf else PInf)"
| "fmul PInf PInf = PInf"
| "fmul PInf MInf = MInf"
| "fmul MInf PInf = MInf"
| "fmul MInf MInf = PInf"
| "fmul NaN b = NaN"
| "fmul a NaN = NaN"

fun fdiv :: "double \<Rightarrow> double \<Rightarrow> double" where
  "fdiv (Fin x) (Fin y) =
     (if y = 0 then (if x = 0 then NaN else if 0 < x then PInf else MInf)
      else round_to_double (x / y))"
| "fdiv (Fin x) PInf = Fin 0"
| "fdiv (Fin x) MInf = Fin 0"
| "fdiv PInf (Fin y) = (if 0 \<le> y then PInf else MInf)"
| "fdiv MInf (Fin y) = (if 0 \<le> y then MInf else PInf)"
| "fdiv PInf PInf = NaN"
| "fdiv PInf MInf = NaN"
| "fdiv MInf PInf = NaN"
| "fdiv MInf MInf = NaN"
| "fdiv NaN b = NaN"
| "fdiv a NaN = NaN"

fun flt :: "double \<Rightarrow> double \<Rightarrow> bool" where
  "flt (Fin x) (Fin y) = (x < y)"
| "flt (Fin x) PInf = True"
| "flt MInf (Fin y) = True"
| "flt MInf PInf = True"
| "flt (Fin x) MInf = False"
| "flt PInf b = False"
| "flt MInf MInf = False"
| "flt NaN b = False"
| "flt a NaN = False"

fun fle :: "double \<Rightarrow> double \<Rightarrow> bool" where
  "fle (Fin x) (Fin y) = (x \<le> y)"
| "fle (Fin x) PInf = True"
| "fle MInf (Fin y) = True"
| "fle MInf PInf = True"
| "fle MInf MInf = True"
| "fle PInf PInf = True"
| "fle (Fin x) MInf = False"
| "fle PInf (Fin y) = False"
| "fle PInf MInf = False"
| "fle NaN b = False"
| "fle a NaN = False"

definition fgt :: "double \<Rightarrow> double \<Rightarrow> bool" where
  "fgt a b = flt b a"

definition fge :: "double \<Rightarrow> double \<Rightarrow> bool" where
  "fge a b = fle b a"

fun c_sqrt :: "double \<Rightarrow> double" where
  "c_sqrt (Fin x) = (if x < 0 then NaN else round_to_double (sqrt x))"
| "c_sqrt PInf = PInf"
| "c_sqrt MInf = NaN"
| "c_sqrt NaN = NaN"

fun c_sin :: "double \<Rightarrow> double" where
  "c_sin (Fin x) = round_to_double (sin x)"
| "c_sin PInf = NaN"
| "c_sin MInf = NaN"
| "c_sin NaN = NaN"

fun c_cos :: "double \<Rightarrow> double" where
  "c_cos (Fin x) = round_to_double (cos x)"
| "c_cos PInf = NaN"
| "c_cos MInf = NaN"
| "c_cos NaN = NaN"

fun std_abs :: "double \<Rightarrow> double" where
  "std_abs (Fin x) = Fin \<bar>x\<bar>"
| "std_abs PInf = PInf"
| "std_abs MInf = PInf"
| "std_abs NaN = NaN"

definition std_max :: "double \<Rightarrow> double \<Rightarrow> double" where
  "std_max a b = (if flt a b then b else a)"

definition std_min :: "double \<Rightarrow> double \<Rightarrow> double" where
  "std_min a b = (if flt b a then b else a)"

definition std_clamp :: "double \<Rightarrow> double \<Rightarrow> double \<Rightarrow> double" where
  "std_clamp v lo hi = (if flt v lo then lo else if flt hi v then hi else v)"

fun static_cast_int :: "double \<Rightarrow> int" where
  "static_cast_int (Fin x) =
     (if - 2147483649 < x \<and> x < 2147483648 then trunc_to_int x else - 2147483648)"
| "static_cast_int PInf = - 2147483648"
| "static_cast_int MInf = - 2147483648"
| "static_cast_int NaN = - 2147483648"

fun is_nan :: "double \<Rightarrow> bool" where
  "is_nan NaN = True"
| "is_nan (Fin x) = False"
| "is_nan PInf = False"
| "is_nan MInf = False"

fun is_finite :: "double \<Rightarrow> bool" where
  "is_finite (Fin x) = True"
| "is_finite PInf = False"
| "is_finite MInf = False"
| "is_finite NaN = False"

text \<open>
  The decimal literals of the source, each the double nearest to it (their values are given
  by the lemmas \<open>lit_0_6\<close> to \<open>M_PI_d\<close> below): \<open>0.6\<close>, \<open>0.9\<close>, \<open>0.35\<close>,
  \<open>0.3\<close>, \<open>2.5\<close>, \<open>0.5\<close>, \<open>1e-12\<close> and \<open>M_PI\<close>, which is
  \<open>3.14159265358979323846\<close>. The literals \<open>0.0\<close>, \<open>1.0\<close>, \<open>2.0\<close> and \<open>180.0\<close>
  are \<open>Fin 0\<close>, \<open>Fin 1\<close>, \<open>Fin 2\<close> and \<open>Fin 180\<close>.
\<close>

definition lit_0_6 :: double where "lit_0_6 = round_to_double (6 / 10)"
definition lit_0_9 :: double where "lit_0_9 = round_to_double (9 / 10)"
definition lit_0_35 :: double where "lit_0_35 = round_to_double (35 / 100)"
definition lit_0_3 :: double where "lit_0_3 = round_to_double (3 / 10)"
definition lit_2_5 :: double where "lit_2_5 = round_to_double (25 / 10)"
definition lit_0_5 :: double where "lit_0_5 = round_to_double (5 / 10)"
definition lit_1e_12 :: double where "lit_1e_12 = round_to_double (1 / 10 ^ 12)"
definition M_PI_d :: double where
  "M_PI_d = round_to_double (314159265358979323846 / 10 ^ 20)"

section \<open>The program over doubles: data\<close>

record PointData_d =
  dpt_x :: double
  dpt_y :: double
  dpt_pressure :: double
  dpt_timestamp :: double
  dpt_tiltX :: double
  dpt_tiltY :: double

record CalligraphySegment_d =
  dseg_x1 :: double
  dseg_y1 :: double
  dseg_x2 :: double
  dseg_y2 :: double
  dseg_thickness :: double
  dseg_alpha :: double

record Vertex2D_d =
  dvtx_x :: double
  dvtx_y :: double
  dvtx_alpha :: double

record Vector2D_d =
  dvec_x :: double
  dvec_y :: double

section \<open>Resampling over doubles\<close>

definition dist2_d :: "double \<Rightarrow> double \<Rightarrow> double \<Rightarrow> double \<Rightarrow> double" where
  "dist2_d x1 y1 x2 y2 =
     (let dx = fsub x2 x1; dy = fsub y2 y1 in fadd (fmul dx dx) (fmul dy dy))"

function resample_loop_d ::
  "PointData_d ptr \<Rightarrow> int \<Rightarrow> double \<Rightarrow> int \<Rightarrow> int \<Rightarrow> int \<Rightarrow> PointData_d \<Rightarrow> PointData_d ptr
     \<Rightarrow> (int \<times> PointData_d ptr) option" where
  "resample_loop_d input_points input_count spacing2 max_output i out last_pt output_points =
     (if i < input_count \<and> out < max_output then
        (case rd input_points i of
           None \<Rightarrow> None
         | Some p \<Rightarrow>
             if fge (dist2_d (dpt_x last_pt) (dpt_y last_pt) (dpt_x p) (dpt_y p)) spacing2 then
               (case wr output_points out p of
                  None \<Rightarrow> None
                | Some output_points' \<Rightarrow>
                    resample_loop_d input_points input_count spacing2 max_output
                      (i + 1) (out + 1) p output_points')
             else
               resample_loop_d input_points input_count spacing2 max_output
                 (i + 1) out last_pt output_points)
      else Some (out, output_points))"
  by pat_completeness auto
termination
  by (relation "measure (\<lambda>(input_points, input_count, spacing2, max_output, i, out, last_pt,
        output_points). nat (input_count - i))") auto

declare resample_loop_d.simps [simp del]

definition resample_stroke_points_d ::
  "PointData_d ptr \<Rightarrow> int \<Rightarrow> double \<Rightarrow> PointData_d ptr \<Rightarrow> int
     \<Rightarrow> (int \<times> PointData_d ptr) option" where
  "resample_stroke_points_d input_points input_count spacing output_points max_output =
     (if input_points = None \<or> output_points = None \<or> input_count \<le> 0 \<or> max_output \<le> 0
      then Some (0, output_points)
      else if input_count = 1 then
        (case rd input_points 0 of
           None \<Rightarrow> None
         | Some p0 \<Rightarrow>
             (case wr output_points 0 p0 of
                None \<Rightarrow> None
              | Some output_points' \<Rightarrow> Some (1, output_points')))
      else
        (let spacing2 = fmul spacing spacing in
         case rd input_points 0 of
           None \<Rightarrow> None
         | Some last_pt \<Rightarrow>
             (case wr output_points 0 last_pt of
                None \<Rightarrow> None
              | Some output_points1 \<Rightarrow>
                  (case resample_loop_d input_points input_count spacing2 max_output
                          1 1 last_pt output_points1 of
                     None \<Rightarrow> None
                   | Some (out, output_points2) \<Rightarrow>
                       if out < max_output then
                         (case rd input_points (input_count - 1) of
                            None \<Rightarrow> None
                          | Some pl \<Rightarrow>
                              (case wr output_points2 out pl of
                                 None \<Rightarrow> None
                               | Some output_points3 \<Rightarrow> Some (out + 1, output_points3)))
                       else Some (out, output_points2)))))"

text \<open>
  The spacing test of line 246 as the code computes it, as a relation between two samples;
  \<open>resample_walk\<close> lists the samples of \<open>ps\<close> the loop of lines 244 to 250 emits when
  \<open>last_pt\<close> is the sample emitted last and the capacity does not end it.
\<close>

definition spaced_d :: "double \<Rightarrow> PointData_d \<Rightarrow> PointData_d \<Rightarrow> bool" where
  "spaced_d spacing2 a b = fge (dist2_d (dpt_x a) (dpt_y a) (dpt_x b) (dpt_y b)) spacing2"

fun resample_walk :: "double \<Rightarrow> PointData_d \<Rightarrow> PointData_d list \<Rightarrow> PointData_d list" where
  "resample_walk spacing2 last_pt [] = []"
| "resample_walk spacing2 last_pt (p # ps) =
     (if spaced_d spacing2 last_pt p then p # resample_walk spacing2 p ps
      else resample_walk spacing2 last_pt ps)"

section \<open>Simplification over doubles\<close>

definition deviation2_d ::
  "PointData_d \<Rightarrow> double \<Rightarrow> double \<Rightarrow> double \<Rightarrow> PointData_d \<Rightarrow> double" where
  "deviation2_d A vx vy vlen2 P =
     (let t = (if fgt vlen2 lit_1e_12
               then fdiv (fadd (fmul (fsub (dpt_x P) (dpt_x A)) vx)
                               (fmul (fsub (dpt_y P) (dpt_y A)) vy)) vlen2
               else Fin 0);
          t = std_max (Fin 0) (std_min (Fin 1) t);
          projx = fadd (dpt_x A) (fmul t vx);
          projy = fadd (dpt_y A) (fmul t vy)
      in dist2_d (dpt_x P) (dpt_y P) projx projy)"

function rdp_scan_d ::
  "PointData_d list \<Rightarrow> PointData_d \<Rightarrow> double \<Rightarrow> double \<Rightarrow> double \<Rightarrow> int \<Rightarrow> int \<Rightarrow> int \<Rightarrow> double
     \<Rightarrow> (int \<times> double) option" where
  "rdp_scan_d pts A vx vy vlen2 e i idx maxd =
     (if i < e then
        (case rd (Some pts) i of
           None \<Rightarrow> None
         | Some P \<Rightarrow>
             if fgt (deviation2_d A vx vy vlen2 P) maxd
             then rdp_scan_d pts A vx vy vlen2 e (i + 1) i (deviation2_d A vx vy vlen2 P)
             else rdp_scan_d pts A vx vy vlen2 e (i + 1) idx maxd)
      else Some (idx, maxd))"
  by pat_completeness auto
termination
  by (relation "measure (\<lambda>(pts, A, vx, vy, vlen2, e, i, idx, maxd). nat (e - i))") auto

declare rdp_scan_d.simps [simp del]

lemma rdp_scan_d_idx:
  "rdp_scan_d pts A vx vy vlen2 e i idx maxd = Some (idx', maxd') \<Longrightarrow>
     idx' = idx \<or> (i \<le> idx' \<and> idx' < e)"
proof (induction pts A vx vy vlen2 e i idx maxd rule: rdp_scan_d.induct)
  case (1 pts A vx vy vlen2 e i idx maxd)
  note unfold = rdp_scan_d.simps [of pts A vx vy vlen2 e i idx maxd]
  show ?case
  proof (cases "i < e")
    case False
    with "1.prems" unfold show ?thesis by simp
  next
    case True
    with "1.prems" unfold obtain P where P: "rd (Some pts) i = Some P"
      by (cases "rd (Some pts) i") auto
    show ?thesis
    proof (cases "fgt (deviation2_d A vx vy vlen2 P) maxd")
      case big: True
      with "1.prems" unfold True P
      have "rdp_scan_d pts A vx vy vlen2 e (i + 1) i (deviation2_d A vx vy vlen2 P)
              = Some (idx', maxd')"
        by simp
      from "1.IH"(1) [OF True P big this] True show ?thesis by auto
    next
      case small: False
      with "1.prems" unfold True P
      have "rdp_scan_d pts A vx vy vlen2 e (i + 1) idx maxd = Some (idx', maxd')"
        by simp
      from "1.IH"(2) [OF True P small this] show ?thesis by auto
    qed
  qed
qed

function rdp_d ::
  "PointData_d list \<Rightarrow> int \<Rightarrow> int \<Rightarrow> double \<Rightarrow> PointData_d list \<Rightarrow> PointData_d list option" where
  "rdp_d pts s e eps2 out =
     (if e \<le> s + 1 then Some out
      else
        (case rd (Some pts) s of
           None \<Rightarrow> None
         | Some A \<Rightarrow>
             (case rd (Some pts) e of
                None \<Rightarrow> None
              | Some B \<Rightarrow>
                  (case rdp_scan_d pts A (fsub (dpt_x B) (dpt_x A)) (fsub (dpt_y B) (dpt_y A))
                          (fadd (fmul (fsub (dpt_x B) (dpt_x A)) (fsub (dpt_x B) (dpt_x A)))
                                (fmul (fsub (dpt_y B) (dpt_y A)) (fsub (dpt_y B) (dpt_y A))))
                          e (s + 1) (- 1) (Fin 0) of
                     None \<Rightarrow> None
                   | Some (idx, maxd) \<Rightarrow>
                       if fgt maxd eps2 \<and> idx \<noteq> - 1 then
                         (case rdp_d pts s idx eps2 out of
                            None \<Rightarrow> None
                          | Some out1 \<Rightarrow>
                              (case rd (Some pts) idx of
                                 None \<Rightarrow> None
                               | Some Q \<Rightarrow> rdp_d pts idx e eps2 (out1 @ [Q])))
                       else Some out))))"
  by pat_completeness auto
termination
proof (relation "measure (\<lambda>(pts, s, e, eps2, out). nat (e - s))", goal_cases)
  case 1
  show ?case by simp
next
  case (2 pts s e eps2 out A B r idx maxd)
  then show ?case
    by (auto dest: rdp_scan_d_idx)
next
  case (3 pts s e eps2 out A B r idx maxd out1 Q)
  then show ?case
    by (auto dest: rdp_scan_d_idx)
qed

declare rdp_d.simps [simp del]

definition zero_point_d :: PointData_d where
  "zero_point_d =
     \<lparr>dpt_x = Fin 0, dpt_y = Fin 0, dpt_pressure = Fin 0, dpt_timestamp = Fin 0,
      dpt_tiltX = Fin 0, dpt_tiltY = Fin 0\<rparr>"

definition simplify_stroke_rdp_d ::
  "PointData_d ptr \<Rightarrow> int \<Rightarrow> double \<Rightarrow> PointData_d ptr \<Rightarrow> int
     \<Rightarrow> (int \<times> PointData_d ptr) option" where
  "simplify_stroke_rdp_d input_points input_count epsilon output_points max_output =
     (if input_points = None \<or> output_points = None \<or> input_count = 0 \<or> max_output \<le> 0
      then Some (0, output_points)
      else if input_count \<le> 2 then
        (let c = min input_count max_output in
         case copy_loop input_points c 0 output_points of
           None \<Rightarrow> None
         | Some output_points' \<Rightarrow> Some (c, output_points'))
      else
        (case copy_loop input_points input_count 0
                (Some (replicate (nat input_count) zero_point_d)) of
           None \<Rightarrow> None
         | Some None \<Rightarrow> None
         | Some (Some pts) \<Rightarrow>
             (case rdp_d pts 0 (input_count - 1) (fmul epsilon epsilon) [hd pts] of
                None \<Rightarrow> None
              | Some out1 \<Rightarrow>
                  (let out = out1 @ [last pts];
                       c = min (int (length out)) max_output in
                   case copy_loop (Some out) c 0 output_points of
                     None \<Rightarrow> None
                   | Some output_points' \<Rightarrow> Some (c, output_points')))))"

section \<open>Trigonometry cache, vectors and segment calculator over doubles\<close>

definition sin_table_d :: "int \<Rightarrow> double" where
  "sin_table_d i =
     c_sin (fdiv (fmul (Fin (real_of_int i)) M_PI_d) (fdiv (Fin (real_of_int TABLE_SIZE)) (Fin 2)))"

definition cos_table_d :: "int \<Rightarrow> double" where
  "cos_table_d i =
     c_cos (fdiv (fmul (Fin (real_of_int i)) M_PI_d) (fdiv (Fin (real_of_int TABLE_SIZE)) (Fin 2)))"

definition fast_sin_d :: "double \<Rightarrow> double" where
  "fast_sin_d angle_rad =
     (let index = static_cast_int (fdiv (fmul angle_rad (Fin (real_of_int TABLE_SIZE)))
                                        (fmul (Fin 2) M_PI_d)) smod TABLE_SIZE;
          index = (if index < 0 then index + TABLE_SIZE else index)
      in sin_table_d index)"

definition fast_cos_d :: "double \<Rightarrow> double" where
  "fast_cos_d angle_rad =
     (let index = static_cast_int (fdiv (fmul angle_rad (Fin (real_of_int TABLE_SIZE)))
                                        (fmul (Fin 2) M_PI_d)) smod TABLE_SIZE;
          index = (if index < 0 then index + TABLE_SIZE else index)
      in cos_table_d index)"

definition vec_minus_d :: "Vector2D_d \<Rightarrow> Vector2D_d \<Rightarrow> Vector2D_d" where
  "vec_minus_d u other =
     \<lparr>dvec_x = fsub (dvec_x u) (dvec_x other), dvec_y = fsub (dvec_y u) (dvec_y other)\<rparr>"

definition vec_plus_d :: "Vector2D_d \<Rightarrow> Vector2D_d \<Rightarrow> Vector2D_d" where
  "vec_plus_d u other =
     \<lparr>dvec_x = fadd (dvec_x u) (dvec_x other), dvec_y = fadd (dvec_y u) (dvec_y other)\<rparr>"

definition vec_times_d :: "Vector2D_d \<Rightarrow> double \<Rightarrow> Vector2D_d" where
  "vec_times_d u scalar = \<lparr>dvec_x = fmul (dvec_x u) scalar, dvec_y = fmul (dvec_y u) scalar\<rparr>"

definition vec_divide_d :: "Vector2D_d \<Rightarrow> double \<Rightarrow> Vector2D_d" where
  "vec_divide_d u scalar = \<lparr>dvec_x = fdiv (dvec_x u) scalar, dvec_y = fdiv (dvec_y u) scalar\<rparr>"

definition length_squared_d :: "Vector2D_d \<Rightarrow> double" where
  "length_squared_d u = fadd (fmul (dvec_x u) (dvec_x u)) (fmul (dvec_y u) (dvec_y u))"

definition cross_d :: "Vector2D_d \<Rightarrow> Vector2D_d \<Rightarrow> double" where
  "cross_d u other = fsub (fmul (dvec_x u) (dvec_y other)) (fmul (dvec_y u) (dvec_x other))"

text \<open>
  \<open>thickness_product_d\<close> is the second argument of \<open>std::max\<close> in lines 147 to 150 and in
  line 361; \<open>segment_thickness_d\<close> embeds lines 130 to 150.
\<close>

definition thickness_product_d ::
  "Vector2D_d \<Rightarrow> double \<Rightarrow> PointData_d \<Rightarrow> PointData_d \<Rightarrow> double" where
  "thickness_product_d nib_dir thickness_base a b =
     (let thickness_range = lit_0_9;
          thickness_offset = lit_0_35;
          seg = \<lparr>dvec_x = fsub (dpt_x b) (dpt_x a), dvec_y = fsub (dpt_y b) (dpt_y a)\<rparr>;
          length_sq = length_squared_d seg;
          len = c_sqrt length_sq;
          tangent = vec_divide_d seg len;
          cross_product = std_abs (cross_d tangent nib_dir);
          avg_pressure = fmul (fadd (dpt_pressure a) (dpt_pressure b)) lit_0_5
      in fmul (fmul thickness_base (fadd thickness_offset (fmul thickness_range cross_product)))
           avg_pressure)"

definition segment_thickness_d ::
  "Vector2D_d \<Rightarrow> double \<Rightarrow> PointData_d \<Rightarrow> PointData_d \<Rightarrow> double" where
  "segment_thickness_d nib_dir thickness_base a b =
     (let min_thickness = lit_0_6;
          thickness_range = lit_0_9;
          thickness_offset = lit_0_35;
          seg = \<lparr>dvec_x = fsub (dpt_x b) (dpt_x a), dvec_y = fsub (dpt_y b) (dpt_y a)\<rparr>;
          length_sq = length_squared_d seg;
          len = c_sqrt length_sq;
          tangent = vec_divide_d seg len;
          cross_product = std_abs (cross_d tangent nib_dir);
          avg_pressure = fmul (fadd (dpt_pressure a) (dpt_pressure b)) lit_0_5
      in std_max min_thickness
           (fmul (fmul thickness_base
                    (fadd thickness_offset (fmul thickness_range cross_product)))
              avg_pressure))"

function calc_loop_d ::
  "PointData_d ptr \<Rightarrow> int \<Rightarrow> double \<Rightarrow> Vector2D_d \<Rightarrow> double \<Rightarrow> int \<Rightarrow> int \<Rightarrow> int
     \<Rightarrow> CalligraphySegment_d ptr \<Rightarrow> (int \<times> CalligraphySegment_d ptr) option" where
  "calc_loop_d points point_count opacity nib_dir thickness_base max_segments
       i segment_count output_segments =
     (if i < point_count - 1 \<and> segment_count < max_segments then
        (case rd points i of
           None \<Rightarrow> None
         | Some a \<Rightarrow>
             (case rd points (i + 1) of
                None \<Rightarrow> None
              | Some b \<Rightarrow>
                  if flt (length_squared_d
                            \<lparr>dvec_x = fsub (dpt_x b) (dpt_x a), dvec_y = fsub (dpt_y b) (dpt_y a)\<rparr>)
                       lit_1e_12
                  then calc_loop_d points point_count opacity nib_dir thickness_base max_segments
                         (i + 1) segment_count output_segments
                  else
                    (case wr output_segments segment_count
                            \<lparr>dseg_x1 = dpt_x a, dseg_y1 = dpt_y a, dseg_x2 = dpt_x b,
                             dseg_y2 = dpt_y b,
                             dseg_thickness = segment_thickness_d nib_dir thickness_base a b,
                             dseg_alpha = opacity\<rparr> of
                       None \<Rightarrow> None
                     | Some output_segments' \<Rightarrow>
                         calc_loop_d points point_count opacity nib_dir thickness_base
                           max_segments (i + 1) (segment_count + 1) output_segments')))
      else Some (segment_count, output_segments))"
  by pat_completeness auto
termination
  by (relation "measure (\<lambda>(points, point_count, opacity, nib_dir, thickness_base, max_segments,
        i, segment_count, output_segments). nat (point_count - 1 - i))") auto

declare calc_loop_d.simps [simp del]

definition calculate_calligraphy_segments_d ::
  "PointData_d ptr \<Rightarrow> int \<Rightarrow> double \<Rightarrow> double \<Rightarrow> double \<Rightarrow> double \<Rightarrow> CalligraphySegment_d ptr
     \<Rightarrow> int \<Rightarrow> (int \<times> CalligraphySegment_d ptr) option" where
  "calculate_calligraphy_segments_d points point_count stroke_width opacity nib_angle_deg
       nib_width_factor output_segments max_segments =
     (if point_count < 2 \<or> max_segments \<le> 0 then Some (0, output_segments)
      else
        (let nib_angle_rad = fdiv (fmul nib_angle_deg M_PI_d) (Fin 180);
             nib_dir = \<lparr>dvec_x = fast_cos_d nib_angle_rad, dvec_y = fast_sin_d nib_angle_rad\<rparr>;
             clamped_width_factor = std_clamp nib_width_factor lit_0_3 lit_2_5;
             thickness_base = fmul stroke_width clamped_width_factor
         in calc_loop_d points point_count opacity nib_dir thickness_base max_segments
              0 0 output_segments))"

section \<open>Mesh builder over doubles\<close>

definition mesh_thickness_d ::
  "Vector2D_d \<Rightarrow> double \<Rightarrow> PointData_d \<Rightarrow> PointData_d \<Rightarrow> double" where
  "mesh_thickness_d nib_dir thickness_base a b =
     (let thickness_range = lit_0_9;
          thickness_offset = lit_0_35;
          seg = \<lparr>dvec_x = fsub (dpt_x b) (dpt_x a), dvec_y = fsub (dpt_y b) (dpt_y a)\<rparr>;
          len2 = length_squared_d seg;
          len = c_sqrt len2;
          t = vec_divide_d seg len;
          cross_p = std_abs (cross_d t nib_dir);
          pressure = fmul (fadd (dpt_pressure a) (dpt_pressure b)) lit_0_5
      in std_max lit_0_6
           (fmul (fmul thickness_base (fadd thickness_offset (fmul thickness_range cross_p)))
              pressure))"

definition quad_vertices_d ::
  "Vector2D_d \<Rightarrow> double \<Rightarrow> double \<Rightarrow> PointData_d \<Rightarrow> PointData_d \<Rightarrow> Vertex2D_d list" where
  "quad_vertices_d nib_dir thickness_base opacity a b =
     (let seg = \<lparr>dvec_x = fsub (dpt_x b) (dpt_x a), dvec_y = fsub (dpt_y b) (dpt_y a)\<rparr>;
          len = c_sqrt (length_squared_d seg);
          t = vec_divide_d seg len;
          pressure = fmul (fadd (dpt_pressure a) (dpt_pressure b)) lit_0_5;
          thickness = mesh_thickness_d nib_dir thickness_base a b;
          half_w = fmul lit_0_5 thickness;
          n = \<lparr>dvec_x = fneg (dvec_y t), dvec_y = dvec_x t\<rparr>;
          a_l = vec_minus_d \<lparr>dvec_x = dpt_x a, dvec_y = dpt_y a\<rparr> (vec_times_d n half_w);
          a_r = vec_plus_d \<lparr>dvec_x = dpt_x a, dvec_y = dpt_y a\<rparr> (vec_times_d n half_w);
          b_l = vec_minus_d \<lparr>dvec_x = dpt_x b, dvec_y = dpt_y b\<rparr> (vec_times_d n half_w);
          b_r = vec_plus_d \<lparr>dvec_x = dpt_x b, dvec_y = dpt_y b\<rparr> (vec_times_d n half_w);
          va = std_clamp (fmul opacity pressure) (Fin 0) (Fin 1)
      in [\<lparr>dvtx_x = dvec_x a_l, dvtx_y = dvec_y a_l, dvtx_alpha = va\<rparr>,
          \<lparr>dvtx_x = dvec_x a_r, dvtx_y = dvec_y a_r, dvtx_alpha = va\<rparr>,
          \<lparr>dvtx_x = dvec_x b_l, dvtx_y = dvec_y b_l, dvtx_alpha = va\<rparr>,
          \<lparr>dvtx_x = dvec_x b_r, dvtx_y = dvec_y b_r, dvtx_alpha = va\<rparr>])"

function mesh_loop_d ::
  "PointData_d ptr \<Rightarrow> int \<Rightarrow> double \<Rightarrow> Vector2D_d \<Rightarrow> double \<Rightarrow> int \<Rightarrow> int \<Rightarrow> int \<Rightarrow> int \<Rightarrow> int
     \<Rightarrow> Vertex2D_d ptr \<Rightarrow> int ptr \<Rightarrow> (int \<times> int \<times> Vertex2D_d ptr \<times> int ptr) option" where
  "mesh_loop_d points point_count opacity nib_dir thickness_base max_vertices max_indices
       i vcount icount out_vertices out_indices =
     (if i < point_count - 1 then
        (case rd points i of
           None \<Rightarrow> None
         | Some a \<Rightarrow>
             (case rd points (i + 1) of
                None \<Rightarrow> None
              | Some b \<Rightarrow>
                  if flt (length_squared_d
                            \<lparr>dvec_x = fsub (dpt_x b) (dpt_x a), dvec_y = fsub (dpt_y b) (dpt_y a)\<rparr>)
                       lit_1e_12
                  then mesh_loop_d points point_count opacity nib_dir thickness_base
                         max_vertices max_indices (i + 1) vcount icount out_vertices out_indices
                  else if vcount + 4 > max_vertices \<or> icount + 6 > max_indices
                  then Some (vcount, icount, out_vertices, out_indices)
                  else
                    (case wr_list out_vertices vcount
                            (quad_vertices_d nib_dir thickness_base opacity a b) of
                       None \<Rightarrow> None
                     | Some out_vertices' \<Rightarrow>
                         (case wr_list out_indices icount (quad_indices vcount) of
                            None \<Rightarrow> None
                          | Some out_indices' \<Rightarrow>
                              mesh_loop_d points point_count opacity nib_dir thickness_base
                                max_vertices max_indices (i + 1) (vcount + 4) (icount + 6)
                                out_vertices' out_indices'))))
      else Some (vcount, icount, out_vertices, out_indices))"
  by pat_completeness auto
termination
  by (relation "measure (\<lambda>(points, point_count, opacity, nib_dir, thickness_base, max_vertices,
        max_indices, i, vcount, icount, out_vertices, out_indices). nat (point_count - 1 - i))")
    auto

declare mesh_loop_d.simps [simp del]

definition build_calligraphy_mesh_d ::
  "PointData_d ptr \<Rightarrow> int \<Rightarrow> double \<Rightarrow> double \<Rightarrow> double \<Rightarrow> double \<Rightarrow> Vertex2D_d ptr \<Rightarrow> int
     \<Rightarrow> int ptr \<Rightarrow> int \<Rightarrow> int option
     \<Rightarrow> (int \<times> Vertex2D_d ptr \<times> int ptr \<times> int option) option" where
  "build_calligraphy_mesh_d points point_count stroke_width opacity nib_angle_deg
       nib_width_factor out_vertices max_vertices out_indices max_indices out_index_count =
     (if points = None \<or> out_vertices = None \<or> out_indices = None \<or> out_index_count = None
      then Some (0, out_vertices, out_indices, out_index_count)
      else if point_count < 2 \<or> max_vertices < 4 \<or> max_indices < 6
      then Some (0, out_vertices, out_indices, Some 0)
      else
        (let nib_angle_rad = fdiv (fmul nib_angle_deg M_PI_d) (Fin 180);
             nib_dir = \<lparr>dvec_x = fast_cos_d nib_angle_rad, dvec_y = fast_sin_d nib_angle_rad\<rparr>;
             clamped_width_factor = std_clamp nib_width_factor lit_0_3 lit_2_5;
             thickness_base = fmul stroke_width clamped_width_factor
         in case mesh_loop_d points point_count opacity nib_dir thickness_base
                   max_vertices max_indices 0 0 0 out_vertices out_indices of
              None \<Rightarrow> None
            | Some (vcount, icount, out_vertices', out_indices') \<Rightarrow>
                Some (vcount, out_vertices', out_indices', Some icount)))"

section \<open>The segments both loops visit, over doubles\<close>

definition nondegenerate_d :: "PointData_d \<Rightarrow> PointData_d \<Rightarrow> bool" where
  "nondegenerate_d a b =
     (\<not> flt (length_squared_d
                \<lparr>dvec_x = fsub (dpt_x b) (dpt_x a), dvec_y = fsub (dpt_y b) (dpt_y a)\<rparr>)
           lit_1e_12)"

fun live_segments_d :: "PointData_d list \<Rightarrow> (PointData_d \<times> PointData_d) list" where
  "live_segments_d (a # b # ps) =
     (if nondegenerate_d a b then [(a, b)] else []) @ live_segments_d (b # ps)"
| "live_segments_d ps = []"

definition descriptor_d ::
  "Vector2D_d \<Rightarrow> double \<Rightarrow> double \<Rightarrow> PointData_d \<times> PointData_d \<Rightarrow> CalligraphySegment_d" where
  "descriptor_d nib_dir thickness_base opacity ab =
     \<lparr>dseg_x1 = dpt_x (fst ab), dseg_y1 = dpt_y (fst ab), dseg_x2 = dpt_x (snd ab),
      dseg_y2 = dpt_y (snd ab),
      dseg_thickness = segment_thickness_d nib_dir thickness_base (fst ab) (snd ab),
      dseg_alpha = opacity\<rparr>"

definition quad_d ::
  "Vector2D_d \<Rightarrow> double \<Rightarrow> double \<Rightarrow> PointData_d \<times> PointData_d \<Rightarrow> Vertex2D_d list" where
  "quad_d nib_dir thickness_base opacity ab =
     quad_vertices_d nib_dir thickness_base opacity (fst ab) (snd ab)"

definition nib_direction_d :: "double \<Rightarrow> Vector2D_d" where
  "nib_direction_d nib_angle_deg =
     \<lparr>dvec_x = fast_cos_d (fdiv (fmul nib_angle_deg M_PI_d) (Fin 180)),
      dvec_y = fast_sin_d (fdiv (fmul nib_angle_deg M_PI_d) (Fin 180))\<rparr>"

definition base_thickness_d :: "double \<Rightarrow> double \<Rightarrow> double" where
  "base_thickness_d stroke_width nib_width_factor =
     fmul stroke_width (std_clamp nib_width_factor lit_0_3 lit_2_5)"

text \<open>
  \<open>segment_pressure_d\<close> is the average pressure of a segment (line 144 and line 360).
  \<open>resample_sequence\<close> is what \<open>resample_stroke_points\<close> emits when the capacity does not
  end it: the first sample, the samples the loop emits, and the last input sample.
  \<open>middle_deviation2\<close> is the squared deviation \<open>d2\<close> that \<open>rdp\<close> computes for the middle
  one of three samples \<open>A\<close>, \<open>P\<close>, \<open>B\<close> (lines 278 to 287), and \<open>middle_kept\<close> the test
  by which \<open>rdp\<close> keeps it: \<open>d2 > maxd\<close> with \<open>maxd = 0.0\<close> (line 288), then
  \<open>maxd > eps2\<close> (line 290).
\<close>

definition segment_pressure_d :: "PointData_d \<Rightarrow> PointData_d \<Rightarrow> double" where
  "segment_pressure_d a b = fmul (fadd (dpt_pressure a) (dpt_pressure b)) lit_0_5"

definition resample_sequence :: "double \<Rightarrow> PointData_d list \<Rightarrow> PointData_d list" where
  "resample_sequence spacing ps =
     (case ps of
        [] \<Rightarrow> []
      | p # qs \<Rightarrow>
          if qs = [] then [p]
          else p # resample_walk (fmul spacing spacing) p qs @ [last qs])"

definition middle_deviation2 :: "PointData_d \<Rightarrow> PointData_d \<Rightarrow> PointData_d \<Rightarrow> double" where
  "middle_deviation2 A P B =
     deviation2_d A (fsub (dpt_x B) (dpt_x A)) (fsub (dpt_y B) (dpt_y A))
       (fadd (fmul (fsub (dpt_x B) (dpt_x A)) (fsub (dpt_x B) (dpt_x A)))
             (fmul (fsub (dpt_y B) (dpt_y A)) (fsub (dpt_y B) (dpt_y A)))) P"


text \<open>Initial contents of output arrays and samples with zero tilt, for the examples.\<close>

definition blank_segment_d :: CalligraphySegment_d where
  "blank_segment_d =
     \<lparr>dseg_x1 = Fin 0, dseg_y1 = Fin 0, dseg_x2 = Fin 0, dseg_y2 = Fin 0,
      dseg_thickness = Fin 0, dseg_alpha = Fin 0\<rparr>"

definition blank_vertex_d :: Vertex2D_d where
  "blank_vertex_d = \<lparr>dvtx_x = Fin 0, dvtx_y = Fin 0, dvtx_alpha = Fin 0\<rparr>"

definition sample_d :: "real \<Rightarrow> real \<Rightarrow> real \<Rightarrow> real \<Rightarrow> PointData_d" where
  "sample_d a b p t =
     \<lparr>dpt_x = Fin a, dpt_y = Fin b, dpt_pressure = Fin p, dpt_timestamp = Fin t,
      dpt_tiltX = Fin 0, dpt_tiltY = Fin 0\<rparr>"

section \<open>Reads and writes inside the bounds\<close>

lemma rd_Some: "0 \<le> i \<Longrightarrow> i < int (length xs) \<Longrightarrow> rd (Some xs) i = Some (xs ! nat i)"
  by (simp add: rd_def)

lemma wr_Some:
  "0 \<le> i \<Longrightarrow> i < int (length xs) \<Longrightarrow> wr (Some xs) i v = Some (Some (xs[nat i := v]))"
  by (simp add: wr_def)

lemma take_update_snoc: "k < length xs \<Longrightarrow> take (Suc k) (xs[k := v]) = take k xs @ [v]"
  by (simp add: take_Suc_conv_app_nth)

lemma nat_succ: "0 \<le> i \<Longrightarrow> nat (i + 1) = Suc (nat i)"
  by simp

section \<open>Resampling: the example of the spec\<close>

text \<open>
  C1. The spec's example: the samples \<open>(0,0)\<close>, \<open>(10,0)\<close>, \<open>(20,0)\<close> (pressure 1,
  timestamps 0, 1, 2) resampled at spacing 5 into an output array of capacity 4. The claim
  expects exactly the three samples. The loop already stores \<open>(20,0)\<close>, since it is 10
  away from \<open>(10,0)\<close>, and line 251 stores the final input sample once more: the call
  returns 4 and the end sample stands twice in the output.
\<close>

theorem resample_example_capacity_4:
  "resample_stroke_points
     (Some [sample 0 0 1 0, sample 10 0 1 1, sample 20 0 1 2]) 3 5
     (Some [zero_point, zero_point, zero_point, zero_point]) 4
   = Some (4, Some [sample 0 0 1 0, sample 10 0 1 1, sample 20 0 1 2, sample 20 0 1 2])"
  by (simp add: resample_stroke_points_def resample_loop.simps rd_def wr_def dist2_def
      sample_def)

section \<open>Mesh builder: the guards\<close>

text \<open>
  C10. When any of the four pointers \<open>points\<close>, \<open>out_vertices\<close>, \<open>out_indices\<close>,
  \<open>out_index_count\<close> is null, \<open>build_calligraphy_mesh\<close> returns 0 and writes nothing: the
  cell \<open>out_index_count\<close> points at (when that pointer is not null) keeps the value it had.
  When no pointer is null and \<open>point_count < 2\<close>, \<open>max_vertices < 4\<close> or
  \<open>max_indices < 6\<close>, it returns 0 and stores 0 in the cell.
\<close>

theorem build_calligraphy_mesh_guards:
  "(points = None \<or> out_vertices = None \<or> out_indices = None \<or> out_index_count = None \<longrightarrow>
      build_calligraphy_mesh points point_count stroke_width opacity nib_angle_deg
          nib_width_factor out_vertices max_vertices out_indices max_indices out_index_count
        = Some (0, out_vertices, out_indices, out_index_count))
   \<and> (points \<noteq> None \<and> out_vertices \<noteq> None \<and> out_indices \<noteq> None \<and> out_index_count \<noteq> None
        \<and> (point_count < 2 \<or> max_vertices < 4 \<or> max_indices < 6) \<longrightarrow>
      build_calligraphy_mesh points point_count stroke_width opacity nib_angle_deg
          nib_width_factor out_vertices max_vertices out_indices max_indices out_index_count
        = Some (0, out_vertices, out_indices, Some 0))"
  by (simp add: build_calligraphy_mesh_def)

text \<open>
  At a null \<open>points\<close> the cell keeps its 7; at a single point (no pointer null) it is set
  to 0.
\<close>

theorem build_calligraphy_mesh_guards_witness:
  "build_calligraphy_mesh None 5 1 1 0 1 (Some []) 8 (Some []) 12 (Some 7)
     = Some (0, Some [], Some [], Some 7)
   \<and> build_calligraphy_mesh (Some [zero_point]) 1 1 1 0 1 (Some []) 8 (Some []) 12 (Some 7)
     = Some (0, Some [], Some [], Some 0)"
  using build_calligraphy_mesh_guards [of None "Some []" "Some []" "Some 7" 5 1 1 0 1 8 12]
    build_calligraphy_mesh_guards [of "Some [zero_point]" "Some []" "Some []" "Some 7" 1 1 1 0 1 8 12]
  by simp

section \<open>Smoothing: the anchors\<close>

text \<open>
  The copy loop run from \<open>i\<close> to \<open>copy_count\<close> inside both arrays overwrites exactly the
  elements \<open>i\<close> to \<open>copy_count - 1\<close> of the output with those of the input.
\<close>

lemma copy_loop_result:
  "nat (c - i) = k \<Longrightarrow> 0 \<le> i \<Longrightarrow> i \<le> c \<Longrightarrow> c \<le> int (length pts) \<Longrightarrow> c \<le> int (length buf) \<Longrightarrow>
   copy_loop (Some pts) c i (Some buf)
     = Some (Some (take (nat i) buf @ drop (nat i) (take (nat c) pts) @ drop (nat c) buf))"
proof (induction k arbitrary: i buf)
  case 0
  then have "i = c" by simp
  then show ?case by (simp add: copy_loop.simps)
next
  case (Suc k)
  then have lt: "i < c" by simp
  let ?p = "pts ! nat i"
  let ?buf = "buf[nat i := ?p]"
  have r: "rd (Some pts) i = Some ?p"
    using Suc.prems lt by (simp add: rd_Some)
  have w: "wr (Some buf) i ?p = Some (Some ?buf)"
    using Suc.prems lt by (simp add: wr_Some)
  have "copy_loop (Some pts) c (i + 1) (Some ?buf)
      = Some (Some (take (nat (i + 1)) ?buf @ drop (nat (i + 1)) (take (nat c) pts)
                      @ drop (nat c) ?buf))"
    using Suc.prems lt by (intro Suc.IH) simp_all
  moreover have "take (nat (i + 1)) ?buf = take (nat i) buf @ [?p]"
    using Suc.prems lt by (simp add: nat_succ take_update_snoc)
  moreover have "drop (nat c) ?buf = drop (nat c) buf"
    using Suc.prems lt by simp
  moreover have "drop (nat i) (take (nat c) pts) = ?p # drop (nat (i + 1)) (take (nat c) pts)"
    using Suc.prems lt by (simp add: nat_succ Cons_nth_drop_Suc [symmetric])
  ultimately have "copy_loop (Some pts) c (i + 1) (Some ?buf)
      = Some (Some (take (nat i) buf @ drop (nat i) (take (nat c) pts) @ drop (nat c) buf))"
    by simp
  then show ?case
    using lt r w by (subst copy_loop.simps) simp
qed

lemma copy_loop_from_0:
  assumes "0 \<le> c" "c \<le> int (length pts)" "c \<le> int (length buf)"
  shows "copy_loop (Some pts) c 0 (Some buf) = Some (Some (take (nat c) pts @ drop (nat c) buf))"
  using copy_loop_result [OF refl, of 0 c pts buf] assms by simp

text \<open>
  The smoothing loop emits one sample per iteration until the interior or the capacity is
  exhausted, and keeps what was emitted before it.
\<close>

lemma smooth_loop_inv:
  "nat (n - 1 - i) = k \<Longrightarrow> 1 \<le> i \<Longrightarrow> i \<le> n - 1 \<Longrightarrow> n \<le> int (length pts) \<Longrightarrow> 1 \<le> out \<Longrightarrow>
   out \<le> m \<Longrightarrow> m \<le> int (length buf) \<Longrightarrow>
   \<exists>buf'. smooth_loop (Some pts) n factor inv_factor m i out (Some buf)
             = Some (min (out + (n - 1 - i)) m, Some buf')
      \<and> length buf' = length buf \<and> take (nat out) buf' = take (nat out) buf"
proof (induction k arbitrary: i out buf)
  case 0
  then have "i = n - 1" by simp
  then show ?case using 0 by (simp add: smooth_loop.simps)
next
  case (Suc k)
  then have lt: "i < n - 1" by simp
  show ?case
  proof (cases "out < m")
    case False
    then show ?thesis using Suc.prems lt by (simp add: smooth_loop.simps)
  next
    case True
    let ?q = "smooth_point factor inv_factor (pts ! nat (i - 1)) (pts ! nat i) (pts ! nat (i + 1))"
    let ?buf = "buf[nat out := ?q]"
    have r: "rd (Some pts) (i - 1) = Some (pts ! nat (i - 1))"
      "rd (Some pts) i = Some (pts ! nat i)"
      "rd (Some pts) (i + 1) = Some (pts ! nat (i + 1))"
      using Suc.prems lt by (simp_all add: rd_Some)
    have w: "wr (Some buf) out ?q = Some (Some ?buf)"
      using Suc.prems True by (simp add: wr_Some)
    have "\<exists>buf'. smooth_loop (Some pts) n factor inv_factor m (i + 1) (out + 1) (Some ?buf)
             = Some (min (out + 1 + (n - 1 - (i + 1))) m, Some buf')
      \<and> length buf' = length ?buf \<and> take (nat (out + 1)) buf' = take (nat (out + 1)) ?buf"
      using Suc.prems lt True by (intro Suc.IH) simp_all
    then obtain buf' where l:
      "smooth_loop (Some pts) n factor inv_factor m (i + 1) (out + 1) (Some ?buf)
             = Some (min (out + 1 + (n - 1 - (i + 1))) m, Some buf')"
      "length buf' = length ?buf"
      "take (nat (out + 1)) buf' = take (nat (out + 1)) ?buf"
      by blast
    have pre: "take (nat out) buf' = take (nat out) buf"
    proof -
      have "take (nat out) buf' = take (nat out) (take (nat (out + 1)) buf')"
        by (simp add: min_def)
      also have "\<dots> = take (nat out) (take (nat (out + 1)) ?buf)"
        by (simp only: l(3))
      also have "\<dots> = take (nat out) buf"
        by (simp add: min_def)
      finally show ?thesis .
    qed
    have "out + 1 + (n - 1 - (i + 1)) = out + (n - 1 - i)" by simp
    with l(1) have "smooth_loop (Some pts) n factor inv_factor m i out (Some buf)
             = Some (min (out + (n - 1 - i)) m, Some buf')"
      using lt True r w by (subst smooth_loop.simps) simp
    then show ?thesis using l(2) pre by auto
  qed
qed

text \<open>
  C5 (as amended). For a non-empty input (\<open>1 \<le> input_count\<close>, all of it inside the input
  array), every smoothing factor and every output capacity of at least 1 (inside the output
  array), the first element \<open>smooth_stroke_points\<close> emits is the first input sample,
  equal in every field; and when the capacity is at least \<open>input_count\<close>, it returns
  \<open>input_count\<close> samples and the last of them is the last input sample, equal in every
  field.
\<close>

theorem smooth_keeps_end_points:
  assumes "1 \<le> input_count" and "input_count \<le> int (length pts)"
    and "1 \<le> max_output" and "max_output \<le> int (length buf)"
  shows "\<exists>n buf'.
      smooth_stroke_points (Some pts) input_count smoothing_factor (Some buf) max_output
        = Some (n, Some buf')
      \<and> 1 \<le> n
      \<and> hd (emitted n (Some buf')) = pts ! 0
      \<and> (input_count \<le> max_output \<longrightarrow>
            n = input_count \<and> last (emitted n (Some buf')) = pts ! nat (input_count - 1))"
proof (cases "input_count < 3")
  case True
  let ?c = "min input_count max_output"
  let ?buf' = "take (nat ?c) pts @ drop (nat ?c) buf"
  have c: "1 \<le> ?c" "?c \<le> int (length pts)" "?c \<le> int (length buf)"
    using assms by simp_all
  have "copy_loop (Some pts) ?c 0 (Some buf) = Some (Some ?buf')"
    using c by (intro copy_loop_from_0) simp_all
  then have res: "smooth_stroke_points (Some pts) input_count smoothing_factor (Some buf) max_output
      = Some (?c, Some ?buf')"
    using True by (simp add: smooth_stroke_points_def Let_def)
  have em: "emitted ?c (Some ?buf') = take (nat ?c) pts"
    using c by (simp add: emitted_def)
  have ne: "take (nat ?c) pts \<noteq> []"
    using c by auto
  have h: "hd (take (nat ?c) pts) = pts ! 0"
  proof -
    have "0 < nat ?c" using c by simp
    then have "hd (take (nat ?c) pts) = hd pts" by (rule hd_take)
    moreover have "pts \<noteq> []" using ne by auto
    ultimately show ?thesis by (simp add: hd_conv_nth)
  qed
  have l: "input_count \<le> max_output \<longrightarrow>
        ?c = input_count \<and> last (take (nat ?c) pts) = pts ! nat (input_count - 1)"
  proof
    assume le: "input_count \<le> max_output"
    then have eq: "?c = input_count" by simp
    have len: "length (take (nat input_count) pts) = nat input_count"
      using assms by simp
    have "take (nat input_count) pts \<noteq> []"
      using ne eq by simp
    then have "last (take (nat input_count) pts)
        = take (nat input_count) pts ! (length (take (nat input_count) pts) - 1)"
      by (rule last_conv_nth)
    also have "\<dots> = take (nat input_count) pts ! (nat input_count - 1)"
      by (simp only: len)
    also have "\<dots> = pts ! (nat input_count - 1)"
      using assms by simp
    also have "nat input_count - 1 = nat (input_count - 1)"
      using assms by simp
    finally show "?c = input_count \<and> last (take (nat ?c) pts) = pts ! nat (input_count - 1)"
      using eq by simp
  qed
  show ?thesis
    using res em h l c(1) by (intro exI [of _ ?c] exI [of _ ?buf']) (simp only: simp_thms)
next
  case False
  then have n3: "3 \<le> input_count" by simp
  let ?factor = "clamp smoothing_factor 0 1"
  let ?buf1 = "buf[0 := pts ! 0]"
  have r0: "rd (Some pts) 0 = Some (pts ! 0)"
    using assms by (auto simp: rd_def)
  have w0: "wr (Some buf) 0 (pts ! 0) = Some (Some ?buf1)"
    using assms by (auto simp: wr_def)
  have t1: "take (Suc 0) ?buf1 = [pts ! 0]"
    using assms by (cases buf) simp_all
  let ?out = "min (1 + (input_count - 1 - 1)) max_output"
  have "\<exists>buf'. smooth_loop (Some pts) input_count ?factor (1 - ?factor) max_output 1 1 (Some ?buf1)
             = Some (?out, Some buf')
      \<and> length buf' = length ?buf1 \<and> take (nat 1) buf' = take (nat 1) ?buf1"
    using assms n3 by (intro smooth_loop_inv [OF refl]) simp_all
  then obtain buf2 where l:
    "smooth_loop (Some pts) input_count ?factor (1 - ?factor) max_output 1 1 (Some ?buf1)
             = Some (?out, Some buf2)"
    "length buf2 = length ?buf1" "take (nat 1) buf2 = take (nat 1) ?buf1"
    by blast
  from l(3) t1 have pre: "take (Suc 0) buf2 = [pts ! 0]" by simp
  have out1: "1 \<le> ?out" using assms n3 by simp
  show ?thesis
  proof (cases "?out < max_output")
    case True
    then have out: "?out = input_count - 1" by (simp add: min_def split: if_splits)
    let ?pl = "pts ! nat (input_count - 1)"
    let ?buf3 = "buf2[nat (input_count - 1) := ?pl]"
    have rl: "rd (Some pts) (input_count - 1) = Some ?pl"
      using assms by (auto simp: rd_def)
    have wl: "wr (Some buf2) (input_count - 1) ?pl = Some (Some ?buf3)"
      using assms l(2) True out by (auto simp: wr_def)
    have res: "smooth_stroke_points (Some pts) input_count smoothing_factor (Some buf) max_output
          = Some (input_count, Some ?buf3)"
      using n3 assms r0 w0 l(1) True out rl wl
      by (simp add: smooth_stroke_points_def Let_def)
    have lt: "nat (input_count - 1) < length buf2"
      using assms l(2) True out by simp
    have "nat input_count = Suc (nat (input_count - 1))"
      using n3 by simp
    then have em: "emitted input_count (Some ?buf3) = take (nat (input_count - 1)) buf2 @ [?pl]"
      using lt by (simp add: emitted_def take_update_snoc)
    have "hd (take (nat (input_count - 1)) buf2) = pts ! 0"
    proof -
      obtain y ys where b2: "buf2 = y # ys"
        using pre by (cases buf2) auto
      with pre have "y = pts ! 0" by simp
      moreover have "0 < nat (input_count - 1)" using n3 by simp
      ultimately show ?thesis using b2 by (cases "nat (input_count - 1)") auto
    qed
    moreover have "take (nat (input_count - 1)) buf2 \<noteq> []"
      using n3 lt by auto
    ultimately show ?thesis
      using res em assms by simp
  next
    case stop: False
    then have out: "?out = max_output" by (simp add: min_def split: if_splits)
    have small: "\<not> input_count \<le> max_output" using stop by (simp add: min_def split: if_splits)
    have res: "smooth_stroke_points (Some pts) input_count smoothing_factor (Some buf) max_output
          = Some (max_output, Some buf2)"
      using n3 assms r0 w0 l(1) stop out
      by (simp add: smooth_stroke_points_def Let_def)
    have "hd (take (nat max_output) buf2) = pts ! 0"
    proof -
      obtain y ys where b2: "buf2 = y # ys"
        using pre by (cases buf2) auto
      with pre have "y = pts ! 0" by simp
      moreover have "0 < nat max_output" using assms by simp
      ultimately show ?thesis using b2 by (cases "nat max_output") auto
    qed
    then show ?thesis
      using res small assms by (simp add: emitted_def)
  qed
qed

text \<open>The theorem at three samples, smoothing factor 1/2 and capacity 3.\<close>

theorem smooth_keeps_end_points_witness:
  "(1::int) \<le> 3
   \<and> (3::int) \<le> int (length [sample 0 0 1 0, sample 1 1 1 1, sample 2 0 1 2])
   \<and> (1::int) \<le> 3
   \<and> (3::int) \<le> int (length [zero_point, zero_point, zero_point])
   \<and> (\<exists>n buf'.
      smooth_stroke_points (Some [sample 0 0 1 0, sample 1 1 1 1, sample 2 0 1 2]) 3 (1 / 2)
          (Some [zero_point, zero_point, zero_point]) 3
        = Some (n, Some buf')
      \<and> 1 \<le> n
      \<and> hd (emitted n (Some buf')) = [sample 0 0 1 0, sample 1 1 1 1, sample 2 0 1 2] ! 0
      \<and> ((3::int) \<le> 3 \<longrightarrow>
            n = 3 \<and> last (emitted n (Some buf'))
                     = [sample 0 0 1 0, sample 1 1 1 1, sample 2 0 1 2] ! nat (3 - 1)))"
proof -
  have h1: "(1::int) \<le> 3" by simp
  have h2: "(3::int) \<le> int (length [sample 0 0 1 0, sample 1 1 1 1, sample 2 0 1 2])"
    by simp
  have h4: "(3::int) \<le> int (length [zero_point, zero_point, zero_point])"
    by simp
  from smooth_keeps_end_points [OF h1 h2 h1 h4, of "1 / 2"] h1 h2 h4
  show ?thesis by blast
qed

text \<open>
  C5 as stated fails when the capacity is below the number of input samples: three samples
  smoothed (factor 0) into capacity 2 give the first sample and the middle one; the guard of
  line 216 skips the last input sample.
\<close>

theorem smooth_capacity_2_drops_last:
  "smooth_stroke_points (Some [sample 0 0 1 0, sample 1 1 1 1, sample 2 0 1 2]) 3 0
       (Some [zero_point, zero_point]) 2
     = Some (2, Some [sample 0 0 1 0, sample 1 1 1 1])
   \<and> last (emitted 2 (Some [sample 0 0 1 0, sample 1 1 1 1])) \<noteq> sample 2 0 1 2"
  by (simp add: smooth_stroke_points_def smooth_loop.simps rd_def wr_def sample_def clamp_def
      smooth_point_def emitted_def)

section \<open>Invalid calls\<close>

text \<open>
  Three of the operations start with a guard that returns 0 and writes nothing for a null
  pointer or a count that leaves nothing to do (lines 237, 261 and 304); the mesh builder has
  it too (line 336).
\<close>

lemma resample_stroke_points_guard:
  "input_points = None \<or> output_points = None \<or> input_count \<le> 0 \<or> max_output \<le> 0 \<Longrightarrow>
     resample_stroke_points input_points input_count spacing output_points max_output
       = Some (0, output_points)"
  by (simp add: resample_stroke_points_def)

lemma compute_stroke_velocity_guard:
  "points = None \<or> out_velocities = None \<or> point_count < 2 \<or> max_output \<le> 0 \<Longrightarrow>
     compute_stroke_velocity points point_count out_velocities max_output
       = Some (0, out_velocities)"
  by (simp add: compute_stroke_velocity_def)

lemma simplify_stroke_rdp_guard:
  "input_points = None \<or> output_points = None \<or> input_count = 0 \<or> max_output \<le> 0 \<Longrightarrow>
     simplify_stroke_rdp input_points input_count epsilon output_points max_output
       = Some (0, output_points)"
  by (simp add: simplify_stroke_rdp_def)

text \<open>
  C3. The claim: every exported operation returns 0 and writes nothing when it is given a null
  input pointer, a null output pointer, a non-positive input count or a non-positive capacity.
  \<open>smooth_stroke_points\<close> and \<open>calculate_calligraphy_segments\<close> have no null check (the
  other four operations start with one): with a null input pointer and counts of 2 the first
  reads \<open>input_points[0]\<close> and the second \<open>points[0]\<close> through the null pointer, and with a
  null output pointer the second stores through it. With an input count of \<open>-1\<close> and capacity 2,
  \<open>smooth_stroke_points\<close> returns \<open>min(-1, 2) = -1\<close>, and so does \<open>simplify_stroke_rdp\<close>,
  whose guard is \<open>input_count == 0\<close>.
\<close>

theorem invalid_calls_fault_or_return_negative:
  "smooth_stroke_points None 2 (1 / 2) (Some [zero_point, zero_point]) 2 = None
   \<and> smooth_stroke_points (Some [zero_point]) (- 1) (1 / 2) (Some [zero_point, zero_point]) 2
       = Some (- 1, Some [zero_point, zero_point])
   \<and> calculate_calligraphy_segments None 2 1 1 0 1
         (Some [\<lparr>seg_x1 = 0, seg_y1 = 0, seg_x2 = 0, seg_y2 = 0, seg_thickness = 0,
                 seg_alpha = 0\<rparr>]) 1
       = None
   \<and> calculate_calligraphy_segments (Some [sample 0 0 1 0, sample 1 0 1 1]) 2 1 1 0 1 None 1
       = None
   \<and> simplify_stroke_rdp (Some [zero_point]) (- 1) 1 (Some [zero_point, zero_point]) 2
       = Some (- 1, Some [zero_point, zero_point])"
  by (simp add: smooth_stroke_points_def simplify_stroke_rdp_def copy_loop.simps
      calculate_calligraphy_segments_def calc_loop.simps rd_def wr_def sample_def
      length_squared_def)

section \<open>What the segment loop and the mesh loop store\<close>

lemma live_segments_drop_step:
  assumes "0 \<le> i" "i + 1 < n" "n \<le> int (length pts)"
  shows "live_segments (drop (nat i) (take (nat n) pts))
    = (if nondegenerate (pts ! nat i) (pts ! nat (i + 1))
       then [(pts ! nat i, pts ! nat (i + 1))] else [])
      @ live_segments (drop (nat (i + 1)) (take (nat n) pts))"
proof -
  let ?xs = "take (nat n) pts"
  have len: "length ?xs = nat n" using assms by simp
  have i: "nat i < length ?xs" "Suc (nat i) < length ?xs" using assms len by simp_all
  have d1: "drop (nat i) ?xs = ?xs ! nat i # drop (Suc (nat i)) ?xs"
    by (rule Cons_nth_drop_Suc [symmetric, OF i(1)])
  have d2: "drop (Suc (nat i)) ?xs = ?xs ! Suc (nat i) # drop (Suc (Suc (nat i))) ?xs"
    by (rule Cons_nth_drop_Suc [symmetric, OF i(2)])
  have d: "drop (nat i) ?xs
      = ?xs ! nat i # ?xs ! Suc (nat i) # drop (Suc (Suc (nat i))) ?xs"
    using d1 d2 by simp
  have "nat (i + 1) = Suc (nat i)" using assms by simp
  then have d': "drop (nat (i + 1)) ?xs = ?xs ! Suc (nat i) # drop (Suc (Suc (nat i))) ?xs"
    using d2 by simp
  have n1: "?xs ! nat i = pts ! nat i" "?xs ! Suc (nat i) = pts ! nat (i + 1)"
    using assms by (simp_all add: nat_succ)
  show ?thesis
    by (simp only: d d' live_segments.simps n1)
qed

lemma live_segments_drop_end:
  assumes "0 \<le> i" "n \<le> i + 1"
  shows "live_segments (drop (nat i) (take (nat n) pts)) = []"
proof -
  have "length (drop (nat i) (take (nat n) pts)) \<le> 1" using assms by simp
  then show ?thesis
    by (cases "drop (nat i) (take (nat n) pts)" rule: live_segments.cases) simp_all
qed

text \<open>
  The segment loop, started at sample \<open>i\<close> with \<open>cnt\<close> descriptors stored, appends the
  descriptors of the live segments from \<open>i\<close> on, as many as the capacity allows.
\<close>

lemma calc_loop_result:
  "nat (n - 1 - i) = k \<Longrightarrow> 0 \<le> i \<Longrightarrow> n \<le> int (length pts) \<Longrightarrow> 0 \<le> cnt \<Longrightarrow> cnt \<le> m \<Longrightarrow>
   m \<le> int (length buf) \<Longrightarrow>
   \<exists>buf'. calc_loop (Some pts) n opacity nib base m i cnt (Some buf)
        = Some (min (cnt + int (length (live_segments (drop (nat i) (take (nat n) pts))))) m,
                Some buf')
      \<and> length buf' = length buf
      \<and> take (nat (min (cnt + int (length (live_segments (drop (nat i) (take (nat n) pts))))) m))
            buf'
          = take (nat cnt) buf
            @ take (nat (m - cnt))
                (map (descriptor nib base opacity)
                   (live_segments (drop (nat i) (take (nat n) pts))))"
proof (induction k arbitrary: i cnt buf)
  case 0
  then have ge: "n \<le> i + 1" by simp
  then have "\<not> i < n - 1" by simp
  moreover have "live_segments (drop (nat i) (take (nat n) pts)) = []"
    using 0 ge by (intro live_segments_drop_end) simp_all
  ultimately show ?case using 0 by (simp add: calc_loop.simps min_def)
next
  case (Suc k)
  then have lt: "i < n - 1" by simp
  let ?S = "live_segments (drop (nat i) (take (nat n) pts))"
  let ?S' = "live_segments (drop (nat (i + 1)) (take (nat n) pts))"
  let ?a = "pts ! nat i" and ?b = "pts ! nat (i + 1)"
  have S: "?S = (if nondegenerate ?a ?b then [(?a, ?b)] else []) @ ?S'"
    using Suc.prems lt by (intro live_segments_drop_step) simp_all
  show ?case
  proof (cases "cnt < m")
    case False
    with Suc.prems have "cnt = m" by simp
    then show ?thesis using lt by (simp add: calc_loop.simps)
  next
    case True
    have r: "rd (Some pts) i = Some ?a" "rd (Some pts) (i + 1) = Some ?b"
      using Suc.prems lt by (simp_all add: rd_Some)
    show ?thesis
    proof (cases "nondegenerate ?a ?b")
      case False
      then have S0: "?S = ?S'" using S by simp
      have "\<exists>buf'. calc_loop (Some pts) n opacity nib base m (i + 1) cnt (Some buf)
          = Some (min (cnt + int (length ?S')) m, Some buf')
        \<and> length buf' = length buf
        \<and> take (nat (min (cnt + int (length ?S')) m)) buf'
            = take (nat cnt) buf @ take (nat (m - cnt)) (map (descriptor nib base opacity) ?S')"
        using Suc.prems lt by (intro Suc.IH) simp_all
      moreover have "calc_loop (Some pts) n opacity nib base m i cnt (Some buf)
          = calc_loop (Some pts) n opacity nib base m (i + 1) cnt (Some buf)"
        using lt True r False by (subst calc_loop.simps) (simp add: nondegenerate_def)
      ultimately show ?thesis by (simp only: S0)
    next
      case live: True
      then have S1: "?S = (?a, ?b) # ?S'" using S by simp
      let ?d = "descriptor nib base opacity (?a, ?b)"
      let ?buf = "buf[nat cnt := ?d]"
      have w: "wr (Some buf) cnt ?d = Some (Some ?buf)"
        using Suc.prems True by (simp add: wr_Some)
      have "\<exists>buf'. calc_loop (Some pts) n opacity nib base m (i + 1) (cnt + 1) (Some ?buf)
          = Some (min (cnt + 1 + int (length ?S')) m, Some buf')
        \<and> length buf' = length ?buf
        \<and> take (nat (min (cnt + 1 + int (length ?S')) m)) buf'
            = take (nat (cnt + 1)) ?buf
              @ take (nat (m - (cnt + 1))) (map (descriptor nib base opacity) ?S')"
        using Suc.prems lt True by (intro Suc.IH) simp_all
      then obtain buf' where l:
        "calc_loop (Some pts) n opacity nib base m (i + 1) (cnt + 1) (Some ?buf)
          = Some (min (cnt + 1 + int (length ?S')) m, Some buf')"
        "length buf' = length ?buf"
        "take (nat (min (cnt + 1 + int (length ?S')) m)) buf'
            = take (nat (cnt + 1)) ?buf
              @ take (nat (m - (cnt + 1))) (map (descriptor nib base opacity) ?S')"
        by blast
      have step: "calc_loop (Some pts) n opacity nib base m i cnt (Some buf)
          = calc_loop (Some pts) n opacity nib base m (i + 1) (cnt + 1) (Some ?buf)"
        using lt True r live w
        by (subst calc_loop.simps) (simp add: nondegenerate_def descriptor_def)
      have cnt: "cnt + int (length ?S) = cnt + 1 + int (length ?S')"
        by (simp add: S1)
      have tk: "take (nat (cnt + 1)) ?buf = take (nat cnt) buf @ [?d]"
        using Suc.prems True by (simp add: nat_succ take_update_snoc)
      have "nat (m - cnt) = Suc (nat (m - (cnt + 1)))" using True by simp
      then have tk2: "take (nat (m - cnt)) (map (descriptor nib base opacity) ?S)
          = ?d # take (nat (m - (cnt + 1))) (map (descriptor nib base opacity) ?S')"
        by (simp add: S1)
      have g1: "calc_loop (Some pts) n opacity nib base m i cnt (Some buf)
          = Some (min (cnt + int (length ?S)) m, Some buf')"
        using l(1) by (simp only: step cnt)
      have g2: "length buf' = length buf"
        using l(2) by simp
      have g3: "take (nat (min (cnt + int (length ?S)) m)) buf'
          = take (nat cnt) buf @ take (nat (m - cnt)) (map (descriptor nib base opacity) ?S)"
        using l(3) by (simp only: cnt tk tk2 append_assoc append_Cons append_Nil)
      from g1 g2 g3 show ?thesis by blast
    qed
  qed
qed

lemma length_overwrite:
  "j + length vs \<le> length xs \<Longrightarrow> length (take j xs @ vs @ drop (j + length vs) xs) = length xs"
  by simp

lemma take_overwrite:
  "j + length vs \<le> length xs \<Longrightarrow>
     take (j + length vs) (take j xs @ vs @ drop (j + length vs) xs) = take j xs @ vs"
  by simp

lemma drop_overwrite:
  "j + length vs \<le> length xs \<Longrightarrow>
     drop (j + length vs + k) (take j xs @ vs @ drop (j + length vs) xs) = drop (j + length vs + k) xs"
  by (simp add: add.commute)

lemma wr_list_Some:
  "0 \<le> i \<Longrightarrow> nat i + length vs \<le> length xs \<Longrightarrow>
   wr_list (Some xs) i vs = Some (Some (take (nat i) xs @ vs @ drop (nat i + length vs) xs))"
proof (induction vs arbitrary: i xs)
  case Nil
  then show ?case by simp
next
  case (Cons v vs)
  have w: "wr (Some xs) i v = Some (Some (xs[nat i := v]))"
    using Cons.prems by (simp add: wr_Some)
  have "wr_list (Some (xs[nat i := v])) (i + 1) vs
      = Some (Some (take (nat (i + 1)) (xs[nat i := v]) @ vs
                      @ drop (nat (i + 1) + length vs) (xs[nat i := v])))"
    using Cons.prems by (intro Cons.IH) (simp_all add: nat_succ)
  moreover have "take (nat (i + 1)) (xs[nat i := v]) = take (nat i) xs @ [v]"
    using Cons.prems by (simp add: nat_succ take_update_snoc)
  moreover have "drop (nat (i + 1) + length vs) (xs[nat i := v])
      = drop (nat i + length (v # vs)) xs"
    using Cons.prems by (simp add: nat_succ)
  ultimately show ?case using w by simp
qed

lemma length_quad_vertices [simp]: "length (quad_vertices nib base opacity a b) = 4"
  by (simp add: quad_vertices_def Let_def)

lemma length_quad_indices [simp]: "length (quad_indices v) = 6"
  by (simp add: quad_indices_def)

lemma div4: "(1 \<le> (x::int) div 4) = (4 \<le> x)"
  by presburger

lemma div6: "(1 \<le> (x::int) div 6) = (6 \<le> x)"
  by presburger

lemma quad_capacity_0:
  assumes "vc + 4 > mv \<or> ic + 6 > mi"
  shows "quad_capacity mv mi vc ic = 0"
proof -
  have "(mv - vc) div 4 < 1 \<or> (mi - ic) div 6 < 1"
    using assms div4 [of "mv - vc"] div6 [of "mi - ic"] by linarith
  then show ?thesis
    by (simp add: quad_capacity_def) linarith
qed

lemma capacity_step:
  fixes x y :: int
  assumes "1 \<le> x" "1 \<le> y"
  shows "nat (min x y) = Suc (nat (min (x - 1) (y - 1)))"
  using assms by arith

lemma quad_capacity_Suc:
  assumes "\<not> (vc + 4 > mv \<or> ic + 6 > mi)"
  shows "quad_capacity mv mi vc ic = Suc (quad_capacity mv mi (vc + 4) (ic + 6))"
proof -
  have v: "(mv - (vc + 4)) div 4 = (mv - vc) div 4 - 1" by simp
  have i: "(mi - (ic + 6)) div 6 = (mi - ic) div 6 - 1" by simp
  have "1 \<le> (mv - vc) div 4" "1 \<le> (mi - ic) div 6"
    using assms div4 [of "mv - vc"] div6 [of "mi - ic"] by simp_all
  then have "nat (min ((mv - vc) div 4) ((mi - ic) div 6))
      = Suc (nat (min ((mv - vc) div 4 - 1) ((mi - ic) div 6 - 1)))"
    by (rule capacity_step)
  then show ?thesis by (simp only: quad_capacity_def v i)
qed

text \<open>
  The mesh loop, started at sample \<open>i\<close> with \<open>vc\<close> vertices and \<open>ic\<close> indices stored,
  appends the quads of the first \<open>q\<close> live segments from \<open>i\<close> on, where \<open>q\<close> is the number
  of live segments or the number of quads that fit, whichever is smaller; the \<open>j\<close>-th of
  them gets the six indices of base \<open>vc + 4 j\<close>. Nothing behind them is written.
\<close>

lemma mesh_loop_result:
  "nat (n - 1 - i) = k \<Longrightarrow> 0 \<le> i \<Longrightarrow> n \<le> int (length pts) \<Longrightarrow> 0 \<le> vc \<Longrightarrow> 0 \<le> ic \<Longrightarrow>
   mv \<le> int (length vbuf) \<Longrightarrow> mi \<le> int (length ibuf) \<Longrightarrow>
   q = min (length (live_segments (drop (nat i) (take (nat n) pts)))) (quad_capacity mv mi vc ic) \<Longrightarrow>
   \<exists>vbuf' ibuf'. mesh_loop (Some pts) n opacity nib base mv mi i vc ic (Some vbuf) (Some ibuf)
        = Some (vc + 4 * int q, ic + 6 * int q, Some vbuf', Some ibuf')
      \<and> length vbuf' = length vbuf \<and> length ibuf' = length ibuf
      \<and> take (nat (vc + 4 * int q)) vbuf'
          = take (nat vc) vbuf
            @ concat (map (quad nib base opacity)
                        (take q (live_segments (drop (nat i) (take (nat n) pts)))))
      \<and> take (nat (ic + 6 * int q)) ibuf'
          = take (nat ic) ibuf @ concat (map (\<lambda>j. quad_indices (vc + 4 * int j)) [0..<q])
      \<and> drop (nat (vc + 4 * int q)) vbuf' = drop (nat (vc + 4 * int q)) vbuf
      \<and> drop (nat (ic + 6 * int q)) ibuf' = drop (nat (ic + 6 * int q)) ibuf"
proof (induction k arbitrary: i vc ic vbuf ibuf q)
  case 0
  then have ge: "n \<le> i + 1" by simp
  then have "\<not> i < n - 1" by simp
  moreover have "live_segments (drop (nat i) (take (nat n) pts)) = []"
    using 0 ge by (intro live_segments_drop_end) simp_all
  ultimately show ?case using 0 by (simp add: mesh_loop.simps)
next
  case (Suc k)
  from Suc.prems(1) have lt: "i < n - 1" by simp
  let ?S = "live_segments (drop (nat i) (take (nat n) pts))"
  let ?S' = "live_segments (drop (nat (i + 1)) (take (nat n) pts))"
  let ?a = "pts ! nat i" and ?b = "pts ! nat (i + 1)"
  have S: "?S = (if nondegenerate ?a ?b then [(?a, ?b)] else []) @ ?S'"
    using Suc.prems lt by (intro live_segments_drop_step) simp_all
  have r: "rd (Some pts) i = Some ?a" "rd (Some pts) (i + 1) = Some ?b"
    using Suc.prems lt by (simp_all add: rd_Some)
  show ?case
  proof (cases "nondegenerate ?a ?b")
    case False
    then have S0: "?S = ?S'" using S by simp
    have "\<exists>vbuf' ibuf'. mesh_loop (Some pts) n opacity nib base mv mi (i + 1) vc ic
            (Some vbuf) (Some ibuf)
        = Some (vc + 4 * int q, ic + 6 * int q, Some vbuf', Some ibuf')
      \<and> length vbuf' = length vbuf \<and> length ibuf' = length ibuf
      \<and> take (nat (vc + 4 * int q)) vbuf'
          = take (nat vc) vbuf @ concat (map (quad nib base opacity) (take q ?S'))
      \<and> take (nat (ic + 6 * int q)) ibuf'
          = take (nat ic) ibuf @ concat (map (\<lambda>j. quad_indices (vc + 4 * int j)) [0..<q])
      \<and> drop (nat (vc + 4 * int q)) vbuf' = drop (nat (vc + 4 * int q)) vbuf
      \<and> drop (nat (ic + 6 * int q)) ibuf' = drop (nat (ic + 6 * int q)) ibuf"
      using Suc.prems lt S0 by (intro Suc.IH) simp_all
    moreover have "mesh_loop (Some pts) n opacity nib base mv mi i vc ic (Some vbuf) (Some ibuf)
        = mesh_loop (Some pts) n opacity nib base mv mi (i + 1) vc ic (Some vbuf) (Some ibuf)"
      using lt r False by (subst mesh_loop.simps) (simp add: nondegenerate_def)
    ultimately show ?thesis by (simp only: S0)
  next
    case live: True
    then have S1: "?S = (?a, ?b) # ?S'" using S by simp
    show ?thesis
    proof (cases "vc + 4 > mv \<or> ic + 6 > mi")
      case full: True
      then have "q = 0" using Suc.prems(8) by (simp add: quad_capacity_0)
      moreover have "mesh_loop (Some pts) n opacity nib base mv mi i vc ic (Some vbuf) (Some ibuf)
          = Some (vc, ic, Some vbuf, Some ibuf)"
        using lt r live full by (subst mesh_loop.simps) (auto simp: nondegenerate_def)
      ultimately show ?thesis by simp
    next
      case room: False
      let ?qv = "quad_vertices nib base opacity ?a ?b"
      let ?qi = "quad_indices vc"
      let ?vbuf = "take (nat vc) vbuf @ ?qv @ drop (nat vc + length ?qv) vbuf"
      let ?ibuf = "take (nat ic) ibuf @ ?qi @ drop (nat ic + length ?qi) ibuf"
      let ?q' = "min (length ?S') (quad_capacity mv mi (vc + 4) (ic + 6))"
      have q: "q = Suc ?q'"
        using Suc.prems(8) quad_capacity_Suc [OF room] by (simp add: S1)
      have nv: "nat vc + length ?qv \<le> length vbuf"
        using Suc.prems(4,6) room by simp linarith
      have ni: "nat ic + length ?qi \<le> length ibuf"
        using Suc.prems(5,7) room by simp linarith
      have wv: "wr_list (Some vbuf) vc ?qv = Some (Some ?vbuf)"
        using Suc.prems(4) nv by (rule wr_list_Some)
      have wi: "wr_list (Some ibuf) ic ?qi = Some (Some ?ibuf)"
        using Suc.prems(5) ni by (rule wr_list_Some)
      have lv: "length ?vbuf = length vbuf" using nv by (rule length_overwrite)
      have li: "length ?ibuf = length ibuf" using ni by (rule length_overwrite)
      have "\<exists>vbuf' ibuf'. mesh_loop (Some pts) n opacity nib base mv mi (i + 1) (vc + 4) (ic + 6)
              (Some ?vbuf) (Some ?ibuf)
          = Some (vc + 4 + 4 * int ?q', ic + 6 + 6 * int ?q', Some vbuf', Some ibuf')
        \<and> length vbuf' = length ?vbuf \<and> length ibuf' = length ?ibuf
        \<and> take (nat (vc + 4 + 4 * int ?q')) vbuf'
            = take (nat (vc + 4)) ?vbuf @ concat (map (quad nib base opacity) (take ?q' ?S'))
        \<and> take (nat (ic + 6 + 6 * int ?q')) ibuf'
            = take (nat (ic + 6)) ?ibuf
              @ concat (map (\<lambda>j. quad_indices (vc + 4 + 4 * int j)) [0..<?q'])
        \<and> drop (nat (vc + 4 + 4 * int ?q')) vbuf' = drop (nat (vc + 4 + 4 * int ?q')) ?vbuf
        \<and> drop (nat (ic + 6 + 6 * int ?q')) ibuf' = drop (nat (ic + 6 + 6 * int ?q')) ?ibuf"
      proof (rule Suc.IH)
        show "nat (n - 1 - (i + 1)) = k" using Suc.prems(1) by simp
        show "0 \<le> i + 1" using Suc.prems(2) by simp
        show "n \<le> int (length pts)" by (rule Suc.prems(3))
        show "0 \<le> vc + 4" using Suc.prems(4) by simp
        show "0 \<le> ic + 6" using Suc.prems(5) by simp
        show "mv \<le> int (length ?vbuf)" using Suc.prems(6) by (simp only: lv)
        show "mi \<le> int (length ?ibuf)" using Suc.prems(7) by (simp only: li)
        show "?q' = ?q'" by (rule refl)
      qed
      then obtain vbuf' ibuf' where l:
        "mesh_loop (Some pts) n opacity nib base mv mi (i + 1) (vc + 4) (ic + 6)
              (Some ?vbuf) (Some ?ibuf)
          = Some (vc + 4 + 4 * int ?q', ic + 6 + 6 * int ?q', Some vbuf', Some ibuf')"
        "length vbuf' = length ?vbuf" "length ibuf' = length ?ibuf"
        "take (nat (vc + 4 + 4 * int ?q')) vbuf'
            = take (nat (vc + 4)) ?vbuf @ concat (map (quad nib base opacity) (take ?q' ?S'))"
        "take (nat (ic + 6 + 6 * int ?q')) ibuf'
            = take (nat (ic + 6)) ?ibuf
              @ concat (map (\<lambda>j. quad_indices (vc + 4 + 4 * int j)) [0..<?q'])"
        "drop (nat (vc + 4 + 4 * int ?q')) vbuf' = drop (nat (vc + 4 + 4 * int ?q')) ?vbuf"
        "drop (nat (ic + 6 + 6 * int ?q')) ibuf' = drop (nat (ic + 6 + 6 * int ?q')) ?ibuf"
        by blast
      have step: "mesh_loop (Some pts) n opacity nib base mv mi i vc ic (Some vbuf) (Some ibuf)
          = mesh_loop (Some pts) n opacity nib base mv mi (i + 1) (vc + 4) (ic + 6)
              (Some ?vbuf) (Some ?ibuf)"
        using lt r live room wv wi
        by (subst mesh_loop.simps) (simp add: nondegenerate_def)
      have cv: "vc + 4 * int q = vc + 4 + 4 * int ?q'" and ci: "ic + 6 * int q = ic + 6 + 6 * int ?q'"
        using q by simp_all
      have "nat (vc + 4) = nat vc + length ?qv"
        using Suc.prems(4) by simp
      then have tv: "take (nat (vc + 4)) ?vbuf = take (nat vc) vbuf @ ?qv"
        using take_overwrite [OF nv] by simp
      have "nat (ic + 6) = nat ic + length ?qi"
        using Suc.prems(5) by simp
      then have ti: "take (nat (ic + 6)) ?ibuf = take (nat ic) ibuf @ ?qi"
        using take_overwrite [OF ni] by simp
      have qs: "concat (map (quad nib base opacity) (take q ?S))
          = ?qv @ concat (map (quad nib base opacity) (take ?q' ?S'))"
        by (simp add: q S1 quad_def)
      have "[0..<q] = 0 # map Suc [0..<?q']"
        by (simp only: q upt_conv_Cons zero_less_Suc if_True map_Suc_upt)
      then have ixs: "concat (map (\<lambda>j. quad_indices (vc + 4 * int j)) [0..<q])
          = ?qi @ concat (map (\<lambda>j. quad_indices (vc + 4 + 4 * int j)) [0..<?q'])"
        by (simp add: comp_def algebra_simps)
      have g1: "mesh_loop (Some pts) n opacity nib base mv mi i vc ic (Some vbuf) (Some ibuf)
          = Some (vc + 4 * int q, ic + 6 * int q, Some vbuf', Some ibuf')"
        using l(1) by (simp only: step cv ci)
      have g2: "length vbuf' = length vbuf" "length ibuf' = length ibuf"
        using l(2,3) by (simp_all only: lv li)
      have g3: "take (nat (vc + 4 * int q)) vbuf'
          = take (nat vc) vbuf @ concat (map (quad nib base opacity) (take q ?S))"
        using l(4) by (simp only: cv tv qs append_assoc)
      have g4: "take (nat (ic + 6 * int q)) ibuf'
          = take (nat ic) ibuf @ concat (map (\<lambda>j. quad_indices (vc + 4 * int j)) [0..<q])"
        using l(5) by (simp only: ci ti ixs append_assoc)
      have ev: "nat (vc + 4 + 4 * int ?q') = nat vc + length ?qv + 4 * ?q'"
        using Suc.prems(4) by simp
      have "drop (nat vc + length ?qv + 4 * ?q') ?vbuf = drop (nat vc + length ?qv + 4 * ?q') vbuf"
        using nv by (rule drop_overwrite)
      then have "drop (nat (vc + 4 + 4 * int ?q')) ?vbuf = drop (nat (vc + 4 + 4 * int ?q')) vbuf"
        by (simp only: ev)
      then have g5: "drop (nat (vc + 4 * int q)) vbuf' = drop (nat (vc + 4 * int q)) vbuf"
        using l(6) by (simp only: cv)
      have ei: "nat (ic + 6 + 6 * int ?q') = nat ic + length ?qi + 6 * ?q'"
        using Suc.prems(5) by simp
      have "drop (nat ic + length ?qi + 6 * ?q') ?ibuf = drop (nat ic + length ?qi + 6 * ?q') ibuf"
        using ni by (rule drop_overwrite)
      then have "drop (nat (ic + 6 + 6 * int ?q')) ?ibuf = drop (nat (ic + 6 + 6 * int ?q')) ibuf"
        by (simp only: ei)
      then have g6: "drop (nat (ic + 6 * int q)) ibuf' = drop (nat (ic + 6 * int q)) ibuf"
        using l(7) by (simp only: ci)
      from g1 g2 g3 g4 g5 g6 show ?thesis by blast
    qed
  qed
qed

section \<open>What the segment calculator and the mesh builder return\<close>

lemma live_segments_length: "length (live_segments ps) \<le> length ps - 1"
  by (induction ps rule: live_segments.induct) auto

lemma take_min_length: "take (min (length xs) j) xs = take j xs"
  by (simp add: min_def)

text \<open>
  With arrays that hold the declared counts, \<open>calculate_calligraphy_segments\<close> emits the
  descriptors of the first \<open>k\<close> live segments of the input, where \<open>k\<close> is the number of
  live segments or the capacity, whichever is smaller.
\<close>

lemma calculate_calligraphy_segments_result:
  assumes "point_count \<le> int (length pts)" and "max_segments \<le> int (length segs)"
    and S: "S = live_segments (take (nat point_count) pts)"
    and k: "k = min (length S) (nat max_segments)"
  shows "\<exists>segs'.
      calculate_calligraphy_segments (Some pts) point_count stroke_width opacity nib_angle_deg
          nib_width_factor (Some segs) max_segments
        = Some (int k, Some segs')
      \<and> length segs' = length segs
      \<and> take k segs'
          = map (descriptor (nib_direction nib_angle_deg)
                   (base_thickness stroke_width nib_width_factor) opacity) (take k S)"
proof (cases "point_count < 2 \<or> max_segments \<le> 0")
  case True
  have "k = 0"
  proof (cases "max_segments \<le> 0")
    case True
    then show ?thesis using k by simp
  next
    case False
    with True have "point_count < 2" by simp
    then have "length (take (nat point_count) pts) - 1 = 0" by simp
    then have "length S = 0"
      using live_segments_length [of "take (nat point_count) pts"] S by simp
    then show ?thesis using k by simp
  qed
  moreover have "calculate_calligraphy_segments (Some pts) point_count stroke_width opacity
      nib_angle_deg nib_width_factor (Some segs) max_segments = Some (0, Some segs)"
    using True by (simp add: calculate_calligraphy_segments_def)
  ultimately show ?thesis by simp
next
  case False
  let ?nib = "nib_direction nib_angle_deg"
  let ?base = "base_thickness stroke_width nib_width_factor"
  let ?d = "descriptor ?nib ?base opacity"
  have S0: "live_segments (drop (nat 0) (take (nat point_count) pts)) = S"
    using S by simp
  have "\<exists>buf'. calc_loop (Some pts) point_count opacity ?nib ?base max_segments 0 0 (Some segs)
        = Some (min (0 + int (length (live_segments (drop (nat 0) (take (nat point_count) pts)))))
                  max_segments, Some buf')
      \<and> length buf' = length segs
      \<and> take (nat (min (0 + int (length (live_segments
                (drop (nat 0) (take (nat point_count) pts))))) max_segments)) buf'
          = take (nat 0) segs
            @ take (nat (max_segments - 0))
                (map ?d (live_segments (drop (nat 0) (take (nat point_count) pts))))"
    using assms(1,2) False by (intro calc_loop_result [OF refl]) simp_all
  then obtain segs' where l:
    "calc_loop (Some pts) point_count opacity ?nib ?base max_segments 0 0 (Some segs)
        = Some (min (0 + int (length S)) max_segments, Some segs')"
    "length segs' = length segs"
    "take (nat (min (0 + int (length S)) max_segments)) segs'
          = take (nat 0) segs @ take (nat (max_segments - 0)) (map ?d S)"
    unfolding S0 by blast
  have ik: "min (0 + int (length S)) max_segments = int k"
    using False k by simp linarith
  have res: "calculate_calligraphy_segments (Some pts) point_count stroke_width opacity
      nib_angle_deg nib_width_factor (Some segs) max_segments = Some (int k, Some segs')"
    using False l(1) [unfolded ik]
    by (simp add: calculate_calligraphy_segments_def nib_direction_def base_thickness_def)
  have "take k segs' = take (nat max_segments) (map ?d S)"
    using l(3) [unfolded ik] by simp
  also have "\<dots> = map ?d (take (nat max_segments) S)"
    by (simp add: take_map)
  also have "take (nat max_segments) S = take k S"
    using take_min_length [of S "nat max_segments"] k by simp
  finally show ?thesis using res l(2) by blast
qed

text \<open>
  With arrays that hold the declared counts, \<open>build_calligraphy_mesh\<close> emits the quads of the
  first \<open>q\<close> live segments of the input, where \<open>q\<close> is the number of live segments or the
  number of quads that fit both capacities, whichever is smaller; it returns \<open>4 q\<close>, stores
  \<open>6 q\<close> in the cell of \<open>out_index_count\<close>, and writes nothing else.
\<close>

lemma build_calligraphy_mesh_result:
  assumes "point_count \<le> int (length pts)"
    and "max_vertices \<le> int (length vs)" and "max_indices \<le> int (length ixs)"
    and S: "S = live_segments (take (nat point_count) pts)"
    and q: "q = min (length S) (quad_capacity max_vertices max_indices 0 0)"
  shows "\<exists>vs' ixs'.
      build_calligraphy_mesh (Some pts) point_count stroke_width opacity nib_angle_deg
          nib_width_factor (Some vs) max_vertices (Some ixs) max_indices (Some c)
        = Some (4 * int q, Some vs', Some ixs', Some (6 * int q))
      \<and> length vs' = length vs \<and> length ixs' = length ixs
      \<and> take (4 * q) vs'
          = concat (map (quad (nib_direction nib_angle_deg)
                           (base_thickness stroke_width nib_width_factor) opacity) (take q S))
      \<and> take (6 * q) ixs' = concat (map (\<lambda>j. quad_indices (4 * int j)) [0..<q])
      \<and> drop (4 * q) vs' = drop (4 * q) vs
      \<and> drop (6 * q) ixs' = drop (6 * q) ixs"
proof (cases "point_count < 2 \<or> max_vertices < 4 \<or> max_indices < 6")
  case True
  have "q = 0"
  proof (cases "point_count < 2")
    case True
    then have "length (take (nat point_count) pts) - 1 = 0" by simp
    then have "length S = 0"
      using live_segments_length [of "take (nat point_count) pts"] S by simp
    then show ?thesis using q by simp
  next
    case False
    with True have "0 + 4 > max_vertices \<or> 0 + 6 > max_indices" by simp
    then have "quad_capacity max_vertices max_indices 0 0 = 0" by (rule quad_capacity_0)
    then show ?thesis using q by simp
  qed
  moreover have "build_calligraphy_mesh (Some pts) point_count stroke_width opacity nib_angle_deg
      nib_width_factor (Some vs) max_vertices (Some ixs) max_indices (Some c)
        = Some (0, Some vs, Some ixs, Some 0)"
    using True by (simp add: build_calligraphy_mesh_def)
  ultimately show ?thesis by simp
next
  case False
  let ?nib = "nib_direction nib_angle_deg"
  let ?base = "base_thickness stroke_width nib_width_factor"
  have S0: "live_segments (drop (nat 0) (take (nat point_count) pts)) = S"
    using S by simp
  have "\<exists>vbuf' ibuf'. mesh_loop (Some pts) point_count opacity ?nib ?base max_vertices max_indices
            0 0 0 (Some vs) (Some ixs)
        = Some (0 + 4 * int q, 0 + 6 * int q, Some vbuf', Some ibuf')
      \<and> length vbuf' = length vs \<and> length ibuf' = length ixs
      \<and> take (nat (0 + 4 * int q)) vbuf'
          = take (nat 0) vs
            @ concat (map (quad ?nib ?base opacity)
                        (take q (live_segments (drop (nat 0) (take (nat point_count) pts)))))
      \<and> take (nat (0 + 6 * int q)) ibuf'
          = take (nat 0) ixs @ concat (map (\<lambda>j. quad_indices (0 + 4 * int j)) [0..<q])
      \<and> drop (nat (0 + 4 * int q)) vbuf' = drop (nat (0 + 4 * int q)) vs
      \<and> drop (nat (0 + 6 * int q)) ibuf' = drop (nat (0 + 6 * int q)) ixs"
  proof (rule mesh_loop_result [OF refl])
    show "(0::int) \<le> 0" "(0::int) \<le> 0" "(0::int) \<le> 0" by simp_all
    show "point_count \<le> int (length pts)" by (rule assms(1))
    show "max_vertices \<le> int (length vs)" by (rule assms(2))
    show "max_indices \<le> int (length ixs)" by (rule assms(3))
    show "q = min (length (live_segments (drop (nat 0) (take (nat point_count) pts))))
                (quad_capacity max_vertices max_indices 0 0)"
      using q by (simp only: S0)
  qed
  then obtain vs' ixs' where l:
    "mesh_loop (Some pts) point_count opacity ?nib ?base max_vertices max_indices
            0 0 0 (Some vs) (Some ixs)
        = Some (0 + 4 * int q, 0 + 6 * int q, Some vs', Some ixs')"
    "length vs' = length vs" "length ixs' = length ixs"
    "take (nat (0 + 4 * int q)) vs'
          = take (nat 0) vs @ concat (map (quad ?nib ?base opacity) (take q S))"
    "take (nat (0 + 6 * int q)) ixs'
          = take (nat 0) ixs @ concat (map (\<lambda>j. quad_indices (0 + 4 * int j)) [0..<q])"
    "drop (nat (0 + 4 * int q)) vs' = drop (nat (0 + 4 * int q)) vs"
    "drop (nat (0 + 6 * int q)) ixs' = drop (nat (0 + 6 * int q)) ixs"
    unfolding S0 by blast
  have n4: "nat (0 + 4 * int q) = 4 * q" and n6: "nat (0 + 6 * int q) = 6 * q"
    by simp_all
  have res: "build_calligraphy_mesh (Some pts) point_count stroke_width opacity nib_angle_deg
      nib_width_factor (Some vs) max_vertices (Some ixs) max_indices (Some c)
        = Some (4 * int q, Some vs', Some ixs', Some (6 * int q))"
    using False l(1)
    by (simp add: build_calligraphy_mesh_def nib_direction_def base_thickness_def)
  have t4: "take (4 * q) vs' = concat (map (quad ?nib ?base opacity) (take q S))"
    using l(4) by (simp only: n4) simp
  have t6: "take (6 * q) ixs' = concat (map (\<lambda>j. quad_indices (4 * int j)) [0..<q])"
    using l(5) by (simp only: n6) simp
  have d4: "drop (4 * q) vs' = drop (4 * q) vs"
    using l(6) by (simp only: n4)
  have d6: "drop (6 * q) ixs' = drop (6 * q) ixs"
    using l(7) by (simp only: n6)
  from res l(2,3) t4 t6 d4 d6 show ?thesis by blast
qed

section \<open>Mesh counts and indices\<close>

lemma quad_indices_range:
  "x \<in> set (quad_indices base) \<Longrightarrow> base \<le> x \<and> x < base + 4"
  by (auto simp: quad_indices_def)

text \<open>
  C6 (as amended). For every call whose four pointers \<open>points\<close>, \<open>out_vertices\<close>,
  \<open>out_indices\<close> and \<open>out_index_count\<close> are not null (arrays that hold the declared
  counts), for every input sequence, all parameter values and every vertex and index
  capacity, \<open>build_calligraphy_mesh\<close> returns \<open>4 q\<close> and stores \<open>6 q\<close> in the cell of
  \<open>out_index_count\<close> for one \<open>q\<close>: the vertex count is a multiple of 4, the index count
  a multiple of 6, and every segment contributes 4 vertices and 6 indices or nothing. Every
  index written is at least 0 and below the returned vertex count, and both arrays are
  unchanged behind the \<open>4 q\<close> vertices and the \<open>6 q\<close> indices. With a null pointer the
  call returns 0 and stores nothing, and the cell of \<open>out_index_count\<close> keeps the value it
  had (C10).
\<close>

theorem mesh_counts_and_indices:
  assumes "point_count \<le> int (length pts)"
    and "max_vertices \<le> int (length vs)" and "max_indices \<le> int (length ixs)"
  shows "\<exists>q vs' ixs'.
      build_calligraphy_mesh (Some pts) point_count stroke_width opacity nib_angle_deg
          nib_width_factor (Some vs) max_vertices (Some ixs) max_indices (Some c)
        = Some (4 * int q, Some vs', Some ixs', Some (6 * int q))
      \<and> (\<forall>x \<in> set (emitted (6 * int q) (Some ixs')). 0 \<le> x \<and> x < 4 * int q)
      \<and> length vs' = length vs \<and> drop (4 * q) vs' = drop (4 * q) vs
      \<and> length ixs' = length ixs \<and> drop (6 * q) ixs' = drop (6 * q) ixs"
proof -
  let ?nib = "nib_direction nib_angle_deg"
  let ?base = "base_thickness stroke_width nib_width_factor"
  define S where "S = live_segments (take (nat point_count) pts)"
  define q where "q = min (length S) (quad_capacity max_vertices max_indices 0 0)"
  obtain vs' ixs' where m:
    "build_calligraphy_mesh (Some pts) point_count stroke_width opacity nib_angle_deg
          nib_width_factor (Some vs) max_vertices (Some ixs) max_indices (Some c)
        = Some (4 * int q, Some vs', Some ixs', Some (6 * int q))"
    "length vs' = length vs" "length ixs' = length ixs"
    "take (6 * q) ixs' = concat (map (\<lambda>j. quad_indices (4 * int j)) [0..<q])"
    "drop (4 * q) vs' = drop (4 * q) vs"
    "drop (6 * q) ixs' = drop (6 * q) ixs"
    using build_calligraphy_mesh_result [OF assms S_def q_def] by blast
  have e: "emitted (6 * int q) (Some ixs') = take (6 * q) ixs'"
    by (simp add: emitted_def nat_mult_distrib)
  have "\<forall>x \<in> set (emitted (6 * int q) (Some ixs')). 0 \<le> x \<and> x < 4 * int q"
  proof
    fix x
    assume "x \<in> set (emitted (6 * int q) (Some ixs'))"
    then obtain j where j: "j < q" "x \<in> set (quad_indices (4 * int j))"
      unfolding e m(4) by auto
    from quad_indices_range [OF j(2)] j(1) show "0 \<le> x \<and> x < 4 * int q"
      by linarith
  qed
  with m show ?thesis by blast
qed

text \<open>The mesh of the segment from \<open>(0,0)\<close> to \<open>(1,0)\<close>, stroke width 1, nib angle 0.\<close>

lemma mesh_example:
  "build_calligraphy_mesh (Some [sample 0 0 1 0, sample 1 0 1 1]) 2 1 2 0 1
       (Some [blank_vertex, blank_vertex, blank_vertex, blank_vertex]) 4
       (Some [0, 0, 0, 0, 0, 0]) 6 (Some 7)
     = Some (4, Some [\<lparr>vtx_x = 0, vtx_y = - 0.3, vtx_alpha = 1\<rparr>,
                      \<lparr>vtx_x = 0, vtx_y = 0.3, vtx_alpha = 1\<rparr>,
                      \<lparr>vtx_x = 1, vtx_y = - 0.3, vtx_alpha = 1\<rparr>,
                      \<lparr>vtx_x = 1, vtx_y = 0.3, vtx_alpha = 1\<rparr>],
             Some [0, 2, 1, 1, 2, 3], Some 6)"
  by (simp add: build_calligraphy_mesh_def mesh_loop.simps rd_def wr_def sample_def
      length_squared_def mesh_thickness_def fast_cos_def fast_sin_def trunc_to_int_def
      TABLE_SIZE_def cos_table_def sin_table_def clamp_def vec_divide_def cross_def M_PI_def
      quad_vertices_def quad_indices_def vec_minus_def vec_plus_def vec_times_def)

text \<open>The theorem at that mesh: one quad, four vertices, six indices below 4.\<close>

theorem mesh_counts_and_indices_witness:
  "(2::int) \<le> int (length [sample 0 0 1 0, sample 1 0 1 1])
   \<and> (4::int) \<le> int (length [blank_vertex, blank_vertex, blank_vertex, blank_vertex])
   \<and> (6::int) \<le> int (length [0, 0, 0, 0, 0, 0 :: int])
   \<and> (\<exists>q vs' ixs'.
      build_calligraphy_mesh (Some [sample 0 0 1 0, sample 1 0 1 1]) 2 1 2 0 1
          (Some [blank_vertex, blank_vertex, blank_vertex, blank_vertex]) 4
          (Some [0, 0, 0, 0, 0, 0]) 6 (Some 7)
        = Some (4 * int q, Some vs', Some ixs', Some (6 * int q))
      \<and> (\<forall>x \<in> set (emitted (6 * int q) (Some ixs')). 0 \<le> x \<and> x < 4 * int q)
      \<and> length vs' = length [blank_vertex, blank_vertex, blank_vertex, blank_vertex]
      \<and> drop (4 * q) vs' = drop (4 * q) [blank_vertex, blank_vertex, blank_vertex, blank_vertex]
      \<and> length ixs' = length [0, 0, 0, 0, 0, 0 :: int]
      \<and> drop (6 * q) ixs' = drop (6 * q) [0, 0, 0, 0, 0, 0])
   \<and> build_calligraphy_mesh (Some [sample 0 0 1 0, sample 1 0 1 1]) 2 1 2 0 1
          (Some [blank_vertex, blank_vertex, blank_vertex, blank_vertex]) 4
          (Some [0, 0, 0, 0, 0, 0]) 6 (Some 7)
       = Some (4, Some [\<lparr>vtx_x = 0, vtx_y = - 0.3, vtx_alpha = 1\<rparr>,
                        \<lparr>vtx_x = 0, vtx_y = 0.3, vtx_alpha = 1\<rparr>,
                        \<lparr>vtx_x = 1, vtx_y = - 0.3, vtx_alpha = 1\<rparr>,
                        \<lparr>vtx_x = 1, vtx_y = 0.3, vtx_alpha = 1\<rparr>],
               Some [0, 2, 1, 1, 2, 3], Some 6)"
proof -
  have h1: "(2::int) \<le> int (length [sample 0 0 1 0, sample 1 0 1 1])" by simp
  have h3: "(4::int) \<le> int (length [blank_vertex, blank_vertex, blank_vertex, blank_vertex])"
    by simp
  have h4: "(6::int) \<le> int (length [0, 0, 0, 0, 0, 0 :: int])" by simp
  from mesh_counts_and_indices [OF h1 h3 h4, where stroke_width = 1 and opacity = 2
      and nib_angle_deg = 0 and nib_width_factor = 1 and c = 7] h1 h3 h4 mesh_example
  show ?thesis by blast
qed

text \<open>
  C6 as stated, for every input, fails for a call with a null pointer: with \<open>points\<close> null
  (an empty input passed as \<open>(nullptr, 0)\<close>) the guard of line 336 returns before line 337
  stores 0, and the index count the caller reads in the cell of \<open>out_index_count\<close> is the
  value the cell had before the call, here 7, which is not a multiple of 6.
\<close>

theorem mesh_null_points_keeps_index_count:
  "build_calligraphy_mesh None 0 1 1 0 1
       (Some [blank_vertex, blank_vertex, blank_vertex, blank_vertex]) 4
       (Some [0, 0, 0, 0, 0, 0]) 6 (Some 7)
     = Some (0, Some [blank_vertex, blank_vertex, blank_vertex, blank_vertex],
             Some [0, 0, 0, 0, 0, 0], Some 7)
   \<and> (7::int) mod 6 \<noteq> 0"
  by (simp add: build_calligraphy_mesh_def)

section \<open>Thickness: mesh builder and segment calculator\<close>

text \<open>
  The live segments are not degenerate; both operations compute the same thickness for a
  segment, and it is at least 0.6 (over the reals; line 147 and line 361).
\<close>

lemma live_segments_nondegenerate:
  "ab \<in> set (live_segments ps) \<Longrightarrow> nondegenerate (fst ab) (snd ab)"
  by (induction ps rule: live_segments.induct) (auto split: if_splits)

lemma mesh_thickness_eq_segment_thickness:
  "mesh_thickness nib base a b = segment_thickness nib base a b"
  by (simp add: mesh_thickness_def segment_thickness_def Let_def)

lemma mesh_thickness_floor: "0.6 \<le> mesh_thickness nib base a b"
  by (simp add: mesh_thickness_def Let_def)

text \<open>
  The normal \<open>n\<close> of line 365 is a unit vector, so the two left and right corners of a quad
  are one thickness apart.
\<close>

lemma unit_normal:
  fixes sx sy :: real
  assumes "0 < sx * sx + sy * sy"
  shows "(sy / sqrt (sx * sx + sy * sy)) ^ 2 + (sx / sqrt (sx * sx + sy * sy)) ^ 2 = 1"
proof -
  let ?l = "sx * sx + sy * sy"
  have len: "sqrt ?l * sqrt ?l = ?l"
    by (simp only: real_sqrt_mult_self abs_of_pos [OF assms])
  have "(sy / sqrt ?l) ^ 2 + (sx / sqrt ?l) ^ 2 = (sy * sy + sx * sx) / (sqrt ?l * sqrt ?l)"
    by (simp only: power2_eq_square times_divide_times_eq add_divide_distrib)
  also have "sy * sy + sx * sx = ?l"
    by (simp only: add.commute)
  also have "?l / (sqrt ?l * sqrt ?l) = ?l / ?l"
    by (simp only: len)
  also have "\<dots> = 1"
  proof (rule divide_self)
    show "?l \<noteq> 0" using assms by linarith
  qed
  finally show ?thesis .
qed

lemma scaled_unit:
  fixes T u v :: real
  assumes "u ^ 2 + v ^ 2 = 1" and "0 \<le> T"
  shows "sqrt ((T * u) ^ 2 + (T * v) ^ 2) = T"
proof -
  have "(T * u) ^ 2 + (T * v) ^ 2 = T ^ 2 * (u ^ 2 + v ^ 2)"
    by (simp only: power_mult_distrib distrib_left)
  also have "\<dots> = T ^ 2"
    by (simp only: assms(1) mult_1_right)
  finally have "sqrt ((T * u) ^ 2 + (T * v) ^ 2) = sqrt (T ^ 2)"
    by (simp only:)
  also have "\<dots> = T"
    using assms(2) by simp
  finally show ?thesis .
qed

lemma quad_vertices_offsets:
  defines "n_x \<equiv> \<lambda>a b. - ((pt_y b - pt_y a)
      / sqrt ((pt_x b - pt_x a) * (pt_x b - pt_x a) + (pt_y b - pt_y a) * (pt_y b - pt_y a)))"
    and "n_y \<equiv> \<lambda>a b. (pt_x b - pt_x a)
      / sqrt ((pt_x b - pt_x a) * (pt_x b - pt_x a) + (pt_y b - pt_y a) * (pt_y b - pt_y a))"
  shows "vtx_x (quad_vertices nib base opacity a b ! 1) - vtx_x (quad_vertices nib base opacity a b ! 0)
           = mesh_thickness nib base a b * n_x a b"
    and "vtx_y (quad_vertices nib base opacity a b ! 1) - vtx_y (quad_vertices nib base opacity a b ! 0)
           = mesh_thickness nib base a b * n_y a b"
    and "vtx_x (quad_vertices nib base opacity a b ! 3) - vtx_x (quad_vertices nib base opacity a b ! 2)
           = mesh_thickness nib base a b * n_x a b"
    and "vtx_y (quad_vertices nib base opacity a b ! 3) - vtx_y (quad_vertices nib base opacity a b ! 2)
           = mesh_thickness nib base a b * n_y a b"
  by (simp_all add: quad_vertices_def Let_def vec_minus_def vec_plus_def vec_times_def
      vec_divide_def length_squared_def n_x_def n_y_def eval_nat_numeral)

lemma quad_vertices_width:
  assumes "nondegenerate a b"
  shows "quad_width (quad_vertices nib base opacity a b ! 0) (quad_vertices nib base opacity a b ! 1)
           = mesh_thickness nib base a b"
    and "quad_width (quad_vertices nib base opacity a b ! 2) (quad_vertices nib base opacity a b ! 3)
           = mesh_thickness nib base a b"
proof -
  let ?sx = "pt_x b - pt_x a" and ?sy = "pt_y b - pt_y a"
  let ?len = "sqrt (?sx * ?sx + ?sy * ?sy)"
  let ?T = "mesh_thickness nib base a b"
  have pos: "0 < ?sx * ?sx + ?sy * ?sy"
  proof -
    have "(1 / 10 ^ 12 :: real) \<le> ?sx * ?sx + ?sy * ?sy"
      using assms by (simp add: nondegenerate_def length_squared_def)
    moreover have "(0::real) < 1 / 10 ^ 12" by simp
    ultimately show ?thesis by linarith
  qed
  have "(?sy / ?len) ^ 2 + (?sx / ?len) ^ 2 = 1"
    using pos by (rule unit_normal)
  then have unit: "(- (?sy / ?len)) ^ 2 + (?sx / ?len) ^ 2 = 1"
    by simp
  have T: "0 \<le> ?T" using mesh_thickness_floor [of nib base a b] by simp
  have w: "sqrt ((?T * - (?sy / ?len)) ^ 2 + (?T * (?sx / ?len)) ^ 2) = ?T"
    using unit T by (rule scaled_unit)
  show "quad_width (quad_vertices nib base opacity a b ! 0) (quad_vertices nib base opacity a b ! 1)
           = ?T"
    unfolding quad_width_def by (simp only: quad_vertices_offsets w)
  show "quad_width (quad_vertices nib base opacity a b ! 2) (quad_vertices nib base opacity a b ! 3)
           = ?T"
    unfolding quad_width_def by (simp only: quad_vertices_offsets w)
qed

lemma concat_map_chunk:
  assumes "\<And>x. length (f x) = n" and "i < length xs"
  shows "take n (drop (n * i) (concat (map f xs))) = f (xs ! i)"
  using assms(2)
proof (induction xs arbitrary: i)
  case Nil
  then show ?case by simp
next
  case (Cons x xs)
  show ?case
  proof (cases i)
    case 0
    then show ?thesis using assms(1) [of x] by simp
  next
    case (Suc j)
    then have "j < length xs" using Cons.prems by simp
    then have "take n (drop (n * j) (concat (map f xs))) = f (xs ! j)" by (rule Cons.IH)
    moreover have "drop (n * i) (concat (map f (x # xs))) = drop (n * j) (concat (map f xs))"
      using Suc assms(1) [of x] by simp
    ultimately show ?thesis using Suc by simp
  qed
qed

lemma le_div4: "4 * x \<le> (m::int) \<Longrightarrow> x \<le> m div 4"
  by presburger

lemma le_div6: "6 * x \<le> (m::int) \<Longrightarrow> x \<le> m div 6"
  by presburger

lemma le_nat_of_int_le: "int k \<le> m \<Longrightarrow> k \<le> nat m"
  by linarith

lemma length_concat_quads:
  "length (concat (map (quad nib base opacity) S)) = 4 * length S"
  by (induction S) (simp_all add: quad_def)

text \<open>
  C9. For every input and identical parameters, with capacities sufficient for all
  \<open>point_count - 1\<close> segments in both calls, both operations emit the same number \<open>k\<close> of
  segments (\<open>k\<close> descriptors, \<open>4 k\<close> vertices, \<open>6 k\<close> indices), and for every \<open>i < k\<close> the
  \<open>i\<close>-th descriptor and the \<open>i\<close>-th quad come from the same pair of samples \<open>(a, b)\<close>, the
  thickness the mesh builder computes for it is the thickness field of the descriptor, and
  the corners of the quad are that thickness apart at the start and at the end of the segment.
\<close>

theorem mesh_thickness_matches_descriptors:
  assumes "point_count \<le> int (length pts)"
    and "point_count - 1 \<le> max_segments" and "max_segments \<le> int (length segs)"
    and "4 * (point_count - 1) \<le> max_vertices" and "max_vertices \<le> int (length vs)"
    and "6 * (point_count - 1) \<le> max_indices" and "max_indices \<le> int (length ixs)"
  shows "\<exists>k segs' vs' ixs'.
      calculate_calligraphy_segments (Some pts) point_count stroke_width opacity nib_angle_deg
          nib_width_factor (Some segs) max_segments
        = Some (int k, Some segs')
      \<and> build_calligraphy_mesh (Some pts) point_count stroke_width opacity nib_angle_deg
          nib_width_factor (Some vs) max_vertices (Some ixs) max_indices (Some c)
        = Some (4 * int k, Some vs', Some ixs', Some (6 * int k))
      \<and> (\<forall>i<k. \<exists>a b.
            segs' ! i = descriptor (nib_direction nib_angle_deg)
                          (base_thickness stroke_width nib_width_factor) opacity (a, b)
          \<and> take 4 (drop (4 * i) vs')
              = quad_vertices (nib_direction nib_angle_deg)
                  (base_thickness stroke_width nib_width_factor) opacity a b
          \<and> mesh_thickness (nib_direction nib_angle_deg)
                (base_thickness stroke_width nib_width_factor) a b
              = seg_thickness (segs' ! i)
          \<and> quad_width (vs' ! (4 * i)) (vs' ! (4 * i + 1)) = seg_thickness (segs' ! i)
          \<and> quad_width (vs' ! (4 * i + 2)) (vs' ! (4 * i + 3)) = seg_thickness (segs' ! i))"
proof -
  let ?nib = "nib_direction nib_angle_deg"
  let ?base = "base_thickness stroke_width nib_width_factor"
  define S where "S = live_segments (take (nat point_count) pts)"
  define k where "k = length S"
  have "length S \<le> length (take (nat point_count) pts) - 1"
    unfolding S_def by (rule live_segments_length)
  then have kle: "int k \<le> max 0 (point_count - 1)"
    unfolding k_def by simp
  have kc: "k = min (length S) (nat max_segments)"
    using kle assms(2) unfolding k_def by linarith
  have "k \<le> quad_capacity max_vertices max_indices 0 0"
  proof (cases "k = 0")
    case True
    then show ?thesis by simp
  next
    case False
    with kle have "int k \<le> point_count - 1" by linarith
    moreover have "point_count - 1 \<le> max_vertices div 4"
      using assms(4) by (rule le_div4)
    moreover have "point_count - 1 \<le> max_indices div 6"
      using assms(6) by (rule le_div6)
    ultimately have "int k \<le> min (max_vertices div 4) (max_indices div 6)"
      by linarith
    then have "k \<le> nat (min (max_vertices div 4) (max_indices div 6))"
      by (rule le_nat_of_int_le)
    then show ?thesis
      by (simp only: quad_capacity_def diff_0_right)
  qed
  then have kq: "k = min (length S) (quad_capacity max_vertices max_indices 0 0)"
    unfolding k_def by simp
  obtain segs' where cs:
    "calculate_calligraphy_segments (Some pts) point_count stroke_width opacity nib_angle_deg
          nib_width_factor (Some segs) max_segments = Some (int k, Some segs')"
    "take k segs' = map (descriptor ?nib ?base opacity) (take k S)"
    using calculate_calligraphy_segments_result [OF assms(1,3) S_def kc] by blast
  obtain vs' ixs' where ms:
    "build_calligraphy_mesh (Some pts) point_count stroke_width opacity nib_angle_deg
          nib_width_factor (Some vs) max_vertices (Some ixs) max_indices (Some c)
        = Some (4 * int k, Some vs', Some ixs', Some (6 * int k))"
    "take (4 * k) vs' = concat (map (quad ?nib ?base opacity) (take k S))"
    using build_calligraphy_mesh_result [OF assms(1,5,7) S_def kq] by blast
  have tS: "take k S = S" unfolding k_def by simp
  have lv: "4 * k \<le> length vs'"
  proof -
    have "length (take (4 * k) vs') = 4 * k"
      unfolding ms(2) tS by (simp add: length_concat_quads k_def)
    then show ?thesis by simp
  qed
  have "\<forall>i<k. \<exists>a b.
            segs' ! i = descriptor ?nib ?base opacity (a, b)
          \<and> take 4 (drop (4 * i) vs') = quad_vertices ?nib ?base opacity a b
          \<and> mesh_thickness ?nib ?base a b = seg_thickness (segs' ! i)
          \<and> quad_width (vs' ! (4 * i)) (vs' ! (4 * i + 1)) = seg_thickness (segs' ! i)
          \<and> quad_width (vs' ! (4 * i + 2)) (vs' ! (4 * i + 3)) = seg_thickness (segs' ! i)"
  proof (intro allI impI)
    fix i
    assume i: "i < k"
    obtain a b where ab: "S ! i = (a, b)" by (cases "S ! i") auto
    let ?Q = "quad_vertices ?nib ?base opacity a b"
    have "S ! i \<in> set S" using i unfolding k_def by simp
    then have live: "nondegenerate a b"
      using live_segments_nondegenerate [of "S ! i" "take (nat point_count) pts"] ab
      unfolding S_def by simp
    have "segs' ! i = take k segs' ! i" using i by simp
    also have "\<dots> = descriptor ?nib ?base opacity (S ! i)"
      unfolding cs(2) tS using i by (simp add: k_def)
    finally have d: "segs' ! i = descriptor ?nib ?base opacity (a, b)"
      by (simp only: ab)
    have "take 4 (drop (4 * i) vs') = take 4 (drop (4 * i) (take (4 * k) vs'))"
      using i by (simp add: drop_take min_def)
    also have "\<dots> = quad ?nib ?base opacity (S ! i)"
      unfolding ms(2) tS
      using i by (intro concat_map_chunk) (simp_all add: quad_def k_def)
    finally have Q: "take 4 (drop (4 * i) vs') = ?Q"
      by (simp only: ab quad_def fst_conv snd_conv)
    have nth: "vs' ! (4 * i + j) = ?Q ! j" if "j < 4" for j
    proof -
      have "?Q ! j = take 4 (drop (4 * i) vs') ! j" by (simp only: Q)
      also have "\<dots> = drop (4 * i) vs' ! j" using that by simp
      also have "\<dots> = vs' ! (4 * i + j)" using lv i by simp
      finally show ?thesis by simp
    qed
    have n0: "vs' ! (4 * i) = ?Q ! 0" using nth [of 0] by simp
    have n1: "vs' ! (4 * i + 1) = ?Q ! 1" using nth [of 1] by simp
    have n2: "vs' ! (4 * i + 2) = ?Q ! 2" using nth [of 2] by simp
    have n3: "vs' ! (4 * i + 3) = ?Q ! 3" using nth [of 3] by simp
    have th: "seg_thickness (segs' ! i) = mesh_thickness ?nib ?base a b"
      unfolding d by (simp add: descriptor_def mesh_thickness_eq_segment_thickness)
    have w1: "quad_width (vs' ! (4 * i)) (vs' ! (4 * i + 1)) = seg_thickness (segs' ! i)"
      unfolding n0 n1 th by (rule quad_vertices_width(1) [OF live])
    have w2: "quad_width (vs' ! (4 * i + 2)) (vs' ! (4 * i + 3)) = seg_thickness (segs' ! i)"
      unfolding n2 n3 th by (rule quad_vertices_width(2) [OF live])
    from d Q th w1 w2
    show "\<exists>a b.
            segs' ! i = descriptor ?nib ?base opacity (a, b)
          \<and> take 4 (drop (4 * i) vs') = quad_vertices ?nib ?base opacity a b
          \<and> mesh_thickness ?nib ?base a b = seg_thickness (segs' ! i)
          \<and> quad_width (vs' ! (4 * i)) (vs' ! (4 * i + 1)) = seg_thickness (segs' ! i)
          \<and> quad_width (vs' ! (4 * i + 2)) (vs' ! (4 * i + 3)) = seg_thickness (segs' ! i)"
      by (intro exI [of _ a] exI [of _ b]) simp
  qed
  with cs(1) ms(1) show ?thesis by blast
qed

text \<open>The theorem at the segment from \<open>(0,0)\<close> to \<open>(1,0)\<close>: one descriptor, thickness 0.6.\<close>

theorem mesh_thickness_matches_descriptors_witness:
  "(2::int) \<le> int (length [sample 0 0 1 0, sample 1 0 1 1])
   \<and> (2::int) - 1 \<le> 1
   \<and> (1::int) \<le> int (length [blank_segment])
   \<and> 4 * ((2::int) - 1) \<le> 4
   \<and> (4::int) \<le> int (length [blank_vertex, blank_vertex, blank_vertex, blank_vertex])
   \<and> 6 * ((2::int) - 1) \<le> 6
   \<and> (6::int) \<le> int (length [0, 0, 0, 0, 0, 0 :: int])
   \<and> (\<exists>k segs' vs' ixs'.
      calculate_calligraphy_segments (Some [sample 0 0 1 0, sample 1 0 1 1]) 2 1 2 0 1
          (Some [blank_segment]) 1
        = Some (int k, Some segs')
      \<and> build_calligraphy_mesh (Some [sample 0 0 1 0, sample 1 0 1 1]) 2 1 2 0 1
          (Some [blank_vertex, blank_vertex, blank_vertex, blank_vertex]) 4
          (Some [0, 0, 0, 0, 0, 0]) 6 (Some 7)
        = Some (4 * int k, Some vs', Some ixs', Some (6 * int k))
      \<and> (\<forall>i<k. \<exists>a b.
            segs' ! i = descriptor (nib_direction 0) (base_thickness 1 1) 2 (a, b)
          \<and> take 4 (drop (4 * i) vs')
              = quad_vertices (nib_direction 0) (base_thickness 1 1) 2 a b
          \<and> mesh_thickness (nib_direction 0) (base_thickness 1 1) a b
              = seg_thickness (segs' ! i)
          \<and> quad_width (vs' ! (4 * i)) (vs' ! (4 * i + 1)) = seg_thickness (segs' ! i)
          \<and> quad_width (vs' ! (4 * i + 2)) (vs' ! (4 * i + 3)) = seg_thickness (segs' ! i)))
   \<and> calculate_calligraphy_segments (Some [sample 0 0 1 0, sample 1 0 1 1]) 2 1 2 0 1
          (Some [blank_segment]) 1
       = Some (1, Some [\<lparr>seg_x1 = 0, seg_y1 = 0, seg_x2 = 1, seg_y2 = 0, seg_thickness = 0.6,
                         seg_alpha = 2\<rparr>])"
proof -
  have h1: "(2::int) \<le> int (length [sample 0 0 1 0, sample 1 0 1 1])" by simp
  have h2: "(2::int) - 1 \<le> 1" by simp
  have h3: "(1::int) \<le> int (length [blank_segment])" by simp
  have h4: "4 * ((2::int) - 1) \<le> 4" by simp
  have h5: "(4::int) \<le> int (length [blank_vertex, blank_vertex, blank_vertex, blank_vertex])"
    by simp
  have h6: "6 * ((2::int) - 1) \<le> 6" by simp
  have h7: "(6::int) \<le> int (length [0, 0, 0, 0, 0, 0 :: int])" by simp
  have ex: "calculate_calligraphy_segments (Some [sample 0 0 1 0, sample 1 0 1 1]) 2 1 2 0 1
          (Some [blank_segment]) 1
       = Some (1, Some [\<lparr>seg_x1 = 0, seg_y1 = 0, seg_x2 = 1, seg_y2 = 0, seg_thickness = 0.6,
                         seg_alpha = 2\<rparr>])"
    by (simp add: calculate_calligraphy_segments_def calc_loop.simps rd_def wr_def sample_def
      length_squared_def segment_thickness_def fast_cos_def fast_sin_def trunc_to_int_def
      TABLE_SIZE_def cos_table_def sin_table_def clamp_def vec_divide_def cross_def M_PI_def)
  from mesh_thickness_matches_descriptors [OF h1 h2 h3 h4 h5 h6 h7, where stroke_width = 1
      and opacity = 2 and nib_angle_deg = 0 and nib_width_factor = 1 and c = 7]
    h1 h2 h3 h4 h5 h6 h7 ex
  show ?thesis by blast
qed

section \<open>Rounding to the nearest double\<close>

text \<open>
  The binade of a real, the rounding of a real whose binade is known, the numbers that
  round to themselves (an integer multiplier below \<open>2^53\<close> times a power of two from
  \<open>2^(-1074)\<close> to \<open>2^971\<close>), and the overflow to infinity.
\<close>

lemma round_half_even_of_int [simp]: "round_half_even (of_int k) = k"
  by (simp add: round_half_even_def)

lemma round_half_even_ge: "of_int k \<le> q \<Longrightarrow> k \<le> round_half_even q"
proof -
  assume "of_int k \<le> q"
  then have "k \<le> \<lfloor>q\<rfloor>" by (simp add: le_floor_iff)
  moreover have "\<lfloor>q\<rfloor> \<le> round_half_even q" by (simp add: round_half_even_def Let_def)
  ultimately show ?thesis by linarith
qed

lemma powr2_powi: "2 powr real_of_int e = 2 powi e"
  by (rule powr_real_of_int') simp_all

lemma floor_log2_iff:
  assumes "0 < \<bar>r\<bar>"
  shows "(\<lfloor>log 2 \<bar>r\<bar>\<rfloor> = e) = (2 powi e \<le> \<bar>r\<bar> \<and> \<bar>r\<bar> < 2 powi (e + 1))"
proof -
  have one: "(1::real) < 2" by simp
  show ?thesis
    using floor_log_eq_powr_iff [OF assms one, of e] by (simp only: powr2_powi)
qed

lemma floor_log2_eq:
  assumes "2 powi e \<le> \<bar>r\<bar>" and "\<bar>r\<bar> < 2 powi (e + 1)"
  shows "\<lfloor>log 2 \<bar>r\<bar>\<rfloor> = e"
proof -
  have "(0::real) < 2 powi e" by (rule zero_less_power_int) simp
  with assms(1) have pos: "0 < \<bar>r\<bar>" by linarith
  show ?thesis
    using floor_log2_iff [OF pos, of e] assms by simp
qed

lemma floor_log2_bounds:
  assumes "r \<noteq> 0"
  shows "2 powi \<lfloor>log 2 \<bar>r\<bar>\<rfloor> \<le> \<bar>r\<bar>" and "\<bar>r\<bar> < 2 powi (\<lfloor>log 2 \<bar>r\<bar>\<rfloor> + 1)"
proof -
  have pos: "0 < \<bar>r\<bar>" using assms by simp
  from floor_log2_iff [OF pos, of "\<lfloor>log 2 \<bar>r\<bar>\<rfloor>"]
  show "2 powi \<lfloor>log 2 \<bar>r\<bar>\<rfloor> \<le> \<bar>r\<bar>" and "\<bar>r\<bar> < 2 powi (\<lfloor>log 2 \<bar>r\<bar>\<rfloor> + 1)"
    by simp_all
qed

lemma powi2_less_imp_less:
  assumes "(2::real) powi a < 2 powi b"
  shows "a < b"
proof (rule ccontr)
  assume "\<not> a < b"
  then have "b \<le> a" by simp
  then have "(2::real) powi b \<le> 2 powi a" by (rule power_int_increasing) simp
  with assms show False by simp
qed

lemma round_to_double_eq:
  assumes "r \<noteq> 0" and "exponent r = E"
    and "round_half_even (r / 2 powi (E - 52)) = m"
    and "\<bar>real_of_int m * 2 powi (E - 52)\<bar> < overflow_bound"
  shows "round_to_double r = Fin (real_of_int m * 2 powi (E - 52))"
proof -
  have u: "ulp r = 2 powi (E - 52)" by (simp only: ulp_def assms(2))
  from assms(4) have "\<not> overflow_bound \<le> real_of_int m * 2 powi (E - 52)"
    and "\<not> real_of_int m * 2 powi (E - 52) \<le> - overflow_bound"
    by linarith+
  then show ?thesis
    using assms(1) by (simp only: round_to_double_def u assms(3) Let_def if_False)
qed

lemma round_to_double_normal:
  assumes "2 powi e \<le> \<bar>r\<bar>" and "\<bar>r\<bar> < 2 powi (e + 1)" and "- 1022 \<le> e"
    and "round_half_even (r / 2 powi (e - 52)) = m"
    and "\<bar>real_of_int m * 2 powi (e - 52)\<bar> < overflow_bound"
  shows "round_to_double r = Fin (real_of_int m * 2 powi (e - 52))"
proof -
  have "(0::real) < 2 powi e" by (rule zero_less_power_int) simp
  with assms(1) have "0 < \<bar>r\<bar>" by linarith
  then have nz: "r \<noteq> 0" by simp
  have "exponent r = e"
    using floor_log2_eq [OF assms(1,2)] assms(3) by (simp add: exponent_def)
  with nz show ?thesis using assms(4,5) by (rule round_to_double_eq)
qed

lemma round_to_double_representable:
  assumes m: "\<bar>m\<bar> < 2 ^ 53" and j: "- 1074 \<le> j" "j \<le> 971"
  shows "round_to_double (real_of_int m * 2 powi j) = Fin (real_of_int m * 2 powi j)"
proof (cases "m = 0")
  case True
  then show ?thesis by (simp add: round_to_double_def)
next
  case False
  let ?r = "real_of_int m * 2 powi j"
  have nz: "?r \<noteq> 0" using False by simp
  let ?e = "\<lfloor>log 2 \<bar>?r\<bar>\<rfloor>"
  let ?E = "exponent ?r"
  have absr: "\<bar>?r\<bar> = \<bar>real_of_int m\<bar> * 2 powi j"
    by (simp add: abs_mult)
  have "\<bar>real_of_int m\<bar> < 2 ^ 53"
    using m by (metis of_int_abs of_int_less_numeral_power_cancel_iff)
  then have "\<bar>?r\<bar> < 2 ^ 53 * 2 powi j"
    unfolding absr by (simp add: zero_less_power_int)
  also have "\<dots> = 2 powi (j + 53)"
    by (simp add: power_int_add)
  finally have lt: "\<bar>?r\<bar> < 2 powi (j + 53)" .
  have "2 powi ?e < (2::real) powi (j + 53)"
    using floor_log2_bounds(1) [OF nz] lt by linarith
  then have "?e < j + 53" by (rule powi2_less_imp_less)
  then have E: "?E \<le> j + 52"
    using j by (simp add: exponent_def)
  define k where "k = nat (j + 52 - ?E)"
  have jk: "j = (?E - 52) + int k" using E by (simp add: k_def)
  have "2 powi j = (2::real) powi (?E - 52) * 2 ^ k"
    by (subst jk) (simp add: power_int_add)
  then have pj: "2 powi j = ulp ?r * 2 ^ k"
    by (simp only: ulp_def)
  have u0: "ulp ?r \<noteq> 0" by (simp add: ulp_def)
  have "?r / ulp ?r = real_of_int m * (ulp ?r * 2 ^ k) / ulp ?r"
    by (simp only: pj [symmetric])
  also have "\<dots> = real_of_int m * 2 ^ k"
    using u0 by simp
  also have "\<dots> = real_of_int (m * 2 ^ k)" by simp
  finally have q: "?r / ulp ?r = real_of_int (m * 2 ^ k)" .
  have "real_of_int (m * 2 ^ k) * ulp ?r = ?r / ulp ?r * ulp ?r"
    by (simp only: q)
  also have "\<dots> = ?r" using u0 by simp
  finally have g: "real_of_int (round_half_even (?r / ulp ?r)) * ulp ?r = ?r"
    by (simp only: q round_half_even_of_int)
  have "(2::real) powi (j + 53) \<le> 2 powi 1024"
    using j by (intro power_int_increasing) simp_all
  also have "(2::real) powi 1024 = overflow_bound"
    by (simp only: overflow_bound_def power_int_numeral)
  finally have "\<bar>?r\<bar> < overflow_bound" using lt by linarith
  then have "\<not> overflow_bound \<le> ?r" and "\<not> ?r \<le> - overflow_bound" by linarith+
  then show ?thesis
    using nz by (simp only: round_to_double_def Let_def g if_False)
qed

lemma round_to_double_int:
  assumes "\<bar>n\<bar> < 2 ^ 53"
  shows "round_to_double (real_of_int n) = Fin (real_of_int n)"
  using round_to_double_representable [OF assms, of 0] by simp

lemma round_to_double_dyadic:
  assumes "\<bar>m\<bar> < 2 ^ 53" and "k \<le> 1074"
  shows "round_to_double (real_of_int m / 2 ^ k) = Fin (real_of_int m / 2 ^ k)"
proof -
  have "(2::real) powi (- int k) = 1 / 2 ^ k"
    by (simp add: power_int_minus_divide)
  then show ?thesis
    using round_to_double_representable [OF assms(1), of "- int k"] assms(2) by simp
qed

lemma round_to_double_overflow:
  assumes "overflow_bound \<le> r"
  shows "round_to_double r = PInf"
proof -
  have b: "overflow_bound = 2 powi 1024"
    by (simp only: overflow_bound_def power_int_numeral)
  have "(0::real) < 2 powi 1024" by (rule zero_less_power_int) simp
  with assms b have pos: "0 < r" by linarith
  then have nz: "r \<noteq> 0" by simp
  let ?e = "\<lfloor>log 2 \<bar>r\<bar>\<rfloor>"
  have "(2::real) powi 1024 < 2 powi (?e + 1)"
    using floor_log2_bounds(2) [OF nz] assms pos b by linarith
  then have "1024 < ?e + 1" by (rule powi2_less_imp_less)
  then have e: "1024 \<le> ?e" by simp
  then have E: "exponent r = ?e" by (simp add: exponent_def)
  let ?u = "ulp r"
  have u: "?u = 2 powi (?e - 52)" by (simp only: ulp_def E)
  have upos: "0 < ?u" unfolding u by (rule zero_less_power_int) simp
  have "(2::real) powi ?e = 2 powi 52 * 2 powi (?e - 52)"
    using power_int_add [of "2::real" 52 "?e - 52"] by simp
  then have pe: "(2::real) powi ?e = 2 ^ 52 * ?u"
    by (simp only: u power_int_numeral)
  have "2 ^ 52 * ?u \<le> r"
    using floor_log2_bounds(1) [OF nz] pos pe by simp
  then have "2 ^ 52 \<le> r / ?u"
    using upos by (simp add: pos_le_divide_eq)
  then have "real_of_int (2 ^ 52) \<le> r / ?u" by simp
  then have "2 ^ 52 \<le> round_half_even (r / ?u)" by (rule round_half_even_ge)
  then have "real_of_int (2 ^ 52) \<le> real_of_int (round_half_even (r / ?u))"
    by (simp only: of_int_le_iff)
  then have "(2::real) ^ 52 \<le> real_of_int (round_half_even (r / ?u))" by simp
  then have "2 ^ 52 * ?u \<le> real_of_int (round_half_even (r / ?u)) * ?u"
    using upos by simp
  moreover have "overflow_bound \<le> 2 ^ 52 * ?u"
  proof -
    have "(2::real) powi 1024 \<le> 2 powi ?e" using e by (intro power_int_increasing) simp_all
    then show ?thesis by (simp only: b pe)
  qed
  ultimately have "overflow_bound \<le> real_of_int (round_half_even (r / ?u)) * ?u" by linarith
  then show ?thesis
    using nz by (simp only: round_to_double_def Let_def if_True if_False)
qed

lemma round_to_double_0 [simp]: "round_to_double 0 = Fin 0"
  by (simp add: round_to_double_def)

lemma round_to_double_1 [simp]: "round_to_double 1 = Fin 1"
  using round_to_double_int [of 1] by simp

lemma round_to_double_numeral:
  "numeral w < (2::int) ^ 53 \<Longrightarrow> round_to_double (numeral w) = Fin (numeral w)"
  using round_to_double_int [of "numeral w"] by simp

lemma round_to_double_neg_numeral:
  "numeral w < (2::int) ^ 53 \<Longrightarrow> round_to_double (- numeral w) = Fin (- numeral w)"
  using round_to_double_int [of "- numeral w"] by simp

text \<open>The values of the literals.\<close>

lemma lit_0_6: "lit_0_6 = Fin (5404319552844595 / 2 ^ 53)"
  unfolding lit_0_6_def
  using round_to_double_normal [of "- 1" "6 / 10" 5404319552844595]
  by (simp add: round_half_even_def power_int_minus_divide overflow_bound_def)

lemma lit_0_9: "lit_0_9 = Fin (8106479329266893 / 2 ^ 53)"
  unfolding lit_0_9_def
  using round_to_double_normal [of "- 1" "9 / 10" 8106479329266893]
  by (simp add: round_half_even_def power_int_minus_divide overflow_bound_def)

lemma lit_0_35: "lit_0_35 = Fin (6305039478318694 / 2 ^ 54)"
  unfolding lit_0_35_def
  using round_to_double_normal [of "- 2" "35 / 100" 6305039478318694]
  by (simp add: round_half_even_def power_int_minus_divide overflow_bound_def)

lemma lit_0_3: "lit_0_3 = Fin (5404319552844595 / 2 ^ 54)"
  unfolding lit_0_3_def
  using round_to_double_normal [of "- 2" "3 / 10" 5404319552844595]
  by (simp add: round_half_even_def power_int_minus_divide overflow_bound_def)

lemma lit_2_5: "lit_2_5 = Fin (5 / 2)"
  unfolding lit_2_5_def
  using round_to_double_dyadic [of 5 1] by simp

lemma lit_0_5: "lit_0_5 = Fin (1 / 2)"
  unfolding lit_0_5_def
  using round_to_double_dyadic [of 1 1] by simp

lemma lit_1e_12: "lit_1e_12 = Fin (4951760157141521 / 2 ^ 92)"
  unfolding lit_1e_12_def
  using round_to_double_normal [of "- 40" "1 / 10 ^ 12" 4951760157141521]
  by (simp add: round_half_even_def power_int_minus_divide overflow_bound_def)

lemma M_PI_d: "M_PI_d = Fin (884279719003555 / 2 ^ 48)"
  unfolding M_PI_d_def
  using round_to_double_normal [of 1 "314159265358979323846 / 10 ^ 20" 7074237752028440]
  by (simp add: round_half_even_def power_int_minus_divide overflow_bound_def)

section \<open>Doubles in the examples\<close>

text \<open>
  At a nib angle of 0 degrees both lookups read entry 0 of their table: the nib direction is
  \<open>(1, 0)\<close>. The segment from \<open>(0,0)\<close> to \<open>(1,0)\<close> with pressure 1 and base thickness 1
  has the product \<open>0.35\<close> and the thickness \<open>0.6\<close>.
\<close>

lemma round_two_pi:
  "round_to_double (884279719003555 / 2 ^ 47) = Fin (884279719003555 / 2 ^ 47)"
  using round_to_double_dyadic [of 884279719003555 47] by simp

lemma table_at_0: "cos_table_d 0 = Fin 1" "sin_table_d 0 = Fin 0"
  by (simp_all add: cos_table_d_def sin_table_d_def M_PI_d TABLE_SIZE_def
      round_to_double_numeral)

lemma nib_direction_d_0: "nib_direction_d (Fin 0) = \<lparr>dvec_x = Fin 1, dvec_y = Fin 0\<rparr>"
  using round_two_pi table_at_0
  by (simp add: nib_direction_d_def fast_cos_d_def fast_sin_d_def M_PI_d
      trunc_to_int_def TABLE_SIZE_def)

lemma round_thickness_offset:
  "round_to_double (6305039478318694 / 2 ^ 54) = Fin (6305039478318694 / 2 ^ 54)"
  using round_to_double_dyadic [of 6305039478318694 54] by simp

lemma round_0_3: "round_to_double (5404319552844595 / 2 ^ 54) = Fin (5404319552844595 / 2 ^ 54)"
  using round_to_double_dyadic [of 5404319552844595 54] by simp

lemma round_m0_3:
  "round_to_double (- (5404319552844595 / 2 ^ 54)) = Fin (- (5404319552844595 / 2 ^ 54))"
  using round_to_double_dyadic [of "- 5404319552844595" 54] by simp

lemma round_0_6: "round_to_double (5404319552844595 / 2 ^ 53) = Fin (5404319552844595 / 2 ^ 53)"
  using round_to_double_dyadic [of 5404319552844595 53] by simp


lemma round_5_2: "round_to_double (5 / 2) = Fin (5 / 2)"
  using round_to_double_dyadic [of 5 1] by simp

lemma round_2_1023: "round_to_double (2 ^ 1023) = Fin (2 ^ 1023)"
  using round_to_double_representable [of "2 ^ 52" 971] by simp

lemmas double_eval =
  fsub_def fgt_def fge_def std_max_def std_min_def std_clamp_def
  round_to_double_numeral round_to_double_neg_numeral
  lit_0_6 lit_0_9 lit_0_35 lit_0_3 lit_2_5 lit_0_5 lit_1e_12

lemma base_thickness_d_1: "base_thickness_d (Fin 1) (Fin 1) = Fin 1"
  by (simp add: base_thickness_d_def double_eval)

lemma thickness_product_example:
  "thickness_product_d \<lparr>dvec_x = Fin 1, dvec_y = Fin 0\<rparr> (Fin 1)
       (sample_d 0 0 1 0) (sample_d 1 0 1 1)
     = lit_0_35"
  using round_thickness_offset
  by (simp add: thickness_product_d_def sample_d_def length_squared_d_def vec_divide_d_def
      cross_d_def double_eval)

lemma thickness_example:
  "segment_thickness_d \<lparr>dvec_x = Fin 1, dvec_y = Fin 0\<rparr> (Fin 1)
       (sample_d 0 0 1 0) (sample_d 1 0 1 1)
     = lit_0_6"
  using round_thickness_offset
  by (simp add: segment_thickness_d_def sample_d_def length_squared_d_def vec_divide_d_def
      cross_d_def double_eval)

lemma nondegenerate_unit: "nondegenerate_d (sample_d 0 0 1 0) (sample_d 1 0 1 1)"
  by (simp add: nondegenerate_d_def sample_d_def length_squared_d_def double_eval)

lemma calc_example:
  "calculate_calligraphy_segments_d (Some [sample_d 0 0 1 0, sample_d 1 0 1 1]) 2 (Fin 1) (Fin 2)
       (Fin 0) (Fin 1) (Some [blank_segment_d]) 1
     = Some (1, Some [\<lparr>dseg_x1 = Fin 0, dseg_y1 = Fin 0, dseg_x2 = Fin 1, dseg_y2 = Fin 0,
                       dseg_thickness = lit_0_6, dseg_alpha = Fin 2\<rparr>])"
  using thickness_example nib_direction_d_0 base_thickness_d_1
  by (simp add: calculate_calligraphy_segments_d_def calc_loop_d.simps rd_def wr_def
      nib_direction_d_def base_thickness_d_def
      length_squared_d_def fsub_def round_to_double_numeral lit_1e_12 sample_d_def)

section \<open>What the segment loop and the mesh loop store, over doubles\<close>

text \<open>
  The two loops over doubles store what the loops over reals store, with the descriptors
  and the quads computed in double arithmetic; the proofs are those of \<open>calc_loop_result\<close>
  and \<open>mesh_loop_result\<close>.
\<close>

lemma live_segments_d_drop_step:
  assumes "0 \<le> i" "i + 1 < n" "n \<le> int (length pts)"
  shows "live_segments_d (drop (nat i) (take (nat n) pts))
    = (if nondegenerate_d (pts ! nat i) (pts ! nat (i + 1))
       then [(pts ! nat i, pts ! nat (i + 1))] else [])
      @ live_segments_d (drop (nat (i + 1)) (take (nat n) pts))"
proof -
  let ?xs = "take (nat n) pts"
  have len: "length ?xs = nat n" using assms by simp
  have i: "nat i < length ?xs" "Suc (nat i) < length ?xs" using assms len by simp_all
  have d1: "drop (nat i) ?xs = ?xs ! nat i # drop (Suc (nat i)) ?xs"
    by (rule Cons_nth_drop_Suc [symmetric, OF i(1)])
  have d2: "drop (Suc (nat i)) ?xs = ?xs ! Suc (nat i) # drop (Suc (Suc (nat i))) ?xs"
    by (rule Cons_nth_drop_Suc [symmetric, OF i(2)])
  have d: "drop (nat i) ?xs
      = ?xs ! nat i # ?xs ! Suc (nat i) # drop (Suc (Suc (nat i))) ?xs"
    using d1 d2 by simp
  have "nat (i + 1) = Suc (nat i)" using assms by simp
  then have d': "drop (nat (i + 1)) ?xs = ?xs ! Suc (nat i) # drop (Suc (Suc (nat i))) ?xs"
    using d2 by simp
  have n1: "?xs ! nat i = pts ! nat i" "?xs ! Suc (nat i) = pts ! nat (i + 1)"
    using assms by (simp_all add: nat_succ)
  show ?thesis
    by (simp only: d d' live_segments_d.simps n1)
qed

lemma live_segments_d_drop_end:
  assumes "0 \<le> i" "n \<le> i + 1"
  shows "live_segments_d (drop (nat i) (take (nat n) pts)) = []"
proof -
  have "length (drop (nat i) (take (nat n) pts)) \<le> 1" using assms by simp
  then show ?thesis
    by (cases "drop (nat i) (take (nat n) pts)" rule: live_segments_d.cases) simp_all
qed

lemma calc_loop_d_result:
  "nat (n - 1 - i) = k \<Longrightarrow> 0 \<le> i \<Longrightarrow> n \<le> int (length pts) \<Longrightarrow> 0 \<le> cnt \<Longrightarrow> cnt \<le> m \<Longrightarrow>
   m \<le> int (length buf) \<Longrightarrow>
   \<exists>buf'. calc_loop_d (Some pts) n opacity nib base m i cnt (Some buf)
        = Some (min (cnt + int (length (live_segments_d (drop (nat i) (take (nat n) pts))))) m,
                Some buf')
      \<and> length buf' = length buf
      \<and> take (nat (min (cnt + int (length (live_segments_d (drop (nat i) (take (nat n) pts))))) m))
            buf'
          = take (nat cnt) buf
            @ take (nat (m - cnt))
                (map (descriptor_d nib base opacity)
                   (live_segments_d (drop (nat i) (take (nat n) pts))))"
proof (induction k arbitrary: i cnt buf)
  case 0
  then have ge: "n \<le> i + 1" by simp
  then have "\<not> i < n - 1" by simp
  moreover have "live_segments_d (drop (nat i) (take (nat n) pts)) = []"
    using 0 ge by (intro live_segments_d_drop_end) simp_all
  ultimately show ?case using 0 by (simp add: calc_loop_d.simps min_def)
next
  case (Suc k)
  then have lt: "i < n - 1" by simp
  let ?S = "live_segments_d (drop (nat i) (take (nat n) pts))"
  let ?S' = "live_segments_d (drop (nat (i + 1)) (take (nat n) pts))"
  let ?a = "pts ! nat i" and ?b = "pts ! nat (i + 1)"
  have S: "?S = (if nondegenerate_d ?a ?b then [(?a, ?b)] else []) @ ?S'"
    using Suc.prems lt by (intro live_segments_d_drop_step) simp_all
  show ?case
  proof (cases "cnt < m")
    case False
    with Suc.prems have "cnt = m" by simp
    then show ?thesis using lt by (simp add: calc_loop_d.simps)
  next
    case True
    have r: "rd (Some pts) i = Some ?a" "rd (Some pts) (i + 1) = Some ?b"
      using Suc.prems lt by (simp_all add: rd_Some)
    show ?thesis
    proof (cases "nondegenerate_d ?a ?b")
      case False
      then have S0: "?S = ?S'" using S by simp
      have "\<exists>buf'. calc_loop_d (Some pts) n opacity nib base m (i + 1) cnt (Some buf)
          = Some (min (cnt + int (length ?S')) m, Some buf')
        \<and> length buf' = length buf
        \<and> take (nat (min (cnt + int (length ?S')) m)) buf'
            = take (nat cnt) buf @ take (nat (m - cnt)) (map (descriptor_d nib base opacity) ?S')"
        using Suc.prems lt by (intro Suc.IH) simp_all
      moreover have "calc_loop_d (Some pts) n opacity nib base m i cnt (Some buf)
          = calc_loop_d (Some pts) n opacity nib base m (i + 1) cnt (Some buf)"
        using lt True r False by (subst calc_loop_d.simps) (simp add: nondegenerate_d_def)
      ultimately show ?thesis by (simp only: S0)
    next
      case live: True
      then have S1: "?S = (?a, ?b) # ?S'" using S by simp
      let ?d = "descriptor_d nib base opacity (?a, ?b)"
      let ?buf = "buf[nat cnt := ?d]"
      have w: "wr (Some buf) cnt ?d = Some (Some ?buf)"
        using Suc.prems True by (simp add: wr_Some)
      have "\<exists>buf'. calc_loop_d (Some pts) n opacity nib base m (i + 1) (cnt + 1) (Some ?buf)
          = Some (min (cnt + 1 + int (length ?S')) m, Some buf')
        \<and> length buf' = length ?buf
        \<and> take (nat (min (cnt + 1 + int (length ?S')) m)) buf'
            = take (nat (cnt + 1)) ?buf
              @ take (nat (m - (cnt + 1))) (map (descriptor_d nib base opacity) ?S')"
        using Suc.prems lt True by (intro Suc.IH) simp_all
      then obtain buf' where l:
        "calc_loop_d (Some pts) n opacity nib base m (i + 1) (cnt + 1) (Some ?buf)
          = Some (min (cnt + 1 + int (length ?S')) m, Some buf')"
        "length buf' = length ?buf"
        "take (nat (min (cnt + 1 + int (length ?S')) m)) buf'
            = take (nat (cnt + 1)) ?buf
              @ take (nat (m - (cnt + 1))) (map (descriptor_d nib base opacity) ?S')"
        by blast
      have step: "calc_loop_d (Some pts) n opacity nib base m i cnt (Some buf)
          = calc_loop_d (Some pts) n opacity nib base m (i + 1) (cnt + 1) (Some ?buf)"
        using lt True r live w
        by (subst calc_loop_d.simps) (simp add: nondegenerate_d_def descriptor_d_def)
      have cnt: "cnt + int (length ?S) = cnt + 1 + int (length ?S')"
        by (simp add: S1)
      have tk: "take (nat (cnt + 1)) ?buf = take (nat cnt) buf @ [?d]"
        using Suc.prems True by (simp add: nat_succ take_update_snoc)
      have "nat (m - cnt) = Suc (nat (m - (cnt + 1)))" using True by simp
      then have tk2: "take (nat (m - cnt)) (map (descriptor_d nib base opacity) ?S)
          = ?d # take (nat (m - (cnt + 1))) (map (descriptor_d nib base opacity) ?S')"
        by (simp add: S1)
      have g1: "calc_loop_d (Some pts) n opacity nib base m i cnt (Some buf)
          = Some (min (cnt + int (length ?S)) m, Some buf')"
        using l(1) by (simp only: step cnt)
      have g2: "length buf' = length buf"
        using l(2) by simp
      have g3: "take (nat (min (cnt + int (length ?S)) m)) buf'
          = take (nat cnt) buf @ take (nat (m - cnt)) (map (descriptor_d nib base opacity) ?S)"
        using l(3) by (simp only: cnt tk tk2 append_assoc append_Cons append_Nil)
      from g1 g2 g3 show ?thesis by blast
    qed
  qed
qed

lemma length_quad_vertices_d [simp]: "length (quad_vertices_d nib base opacity a b) = 4"
  by (simp add: quad_vertices_d_def Let_def)

lemma mesh_loop_d_result:
  "nat (n - 1 - i) = k \<Longrightarrow> 0 \<le> i \<Longrightarrow> n \<le> int (length pts) \<Longrightarrow> 0 \<le> vc \<Longrightarrow> 0 \<le> ic \<Longrightarrow>
   mv \<le> int (length vbuf) \<Longrightarrow> mi \<le> int (length ibuf) \<Longrightarrow>
   q = min (length (live_segments_d (drop (nat i) (take (nat n) pts)))) (quad_capacity mv mi vc ic) \<Longrightarrow>
   \<exists>vbuf' ibuf'. mesh_loop_d (Some pts) n opacity nib base mv mi i vc ic (Some vbuf) (Some ibuf)
        = Some (vc + 4 * int q, ic + 6 * int q, Some vbuf', Some ibuf')
      \<and> length vbuf' = length vbuf \<and> length ibuf' = length ibuf
      \<and> take (nat (vc + 4 * int q)) vbuf'
          = take (nat vc) vbuf
            @ concat (map (quad_d nib base opacity)
                        (take q (live_segments_d (drop (nat i) (take (nat n) pts)))))
      \<and> take (nat (ic + 6 * int q)) ibuf'
          = take (nat ic) ibuf @ concat (map (\<lambda>j. quad_indices (vc + 4 * int j)) [0..<q])
      \<and> drop (nat (vc + 4 * int q)) vbuf' = drop (nat (vc + 4 * int q)) vbuf
      \<and> drop (nat (ic + 6 * int q)) ibuf' = drop (nat (ic + 6 * int q)) ibuf"
proof (induction k arbitrary: i vc ic vbuf ibuf q)
  case 0
  then have ge: "n \<le> i + 1" by simp
  then have "\<not> i < n - 1" by simp
  moreover have "live_segments_d (drop (nat i) (take (nat n) pts)) = []"
    using 0 ge by (intro live_segments_d_drop_end) simp_all
  ultimately show ?case using 0 by (simp add: mesh_loop_d.simps)
next
  case (Suc k)
  from Suc.prems(1) have lt: "i < n - 1" by simp
  let ?S = "live_segments_d (drop (nat i) (take (nat n) pts))"
  let ?S' = "live_segments_d (drop (nat (i + 1)) (take (nat n) pts))"
  let ?a = "pts ! nat i" and ?b = "pts ! nat (i + 1)"
  have S: "?S = (if nondegenerate_d ?a ?b then [(?a, ?b)] else []) @ ?S'"
    using Suc.prems lt by (intro live_segments_d_drop_step) simp_all
  have r: "rd (Some pts) i = Some ?a" "rd (Some pts) (i + 1) = Some ?b"
    using Suc.prems lt by (simp_all add: rd_Some)
  show ?case
  proof (cases "nondegenerate_d ?a ?b")
    case False
    then have S0: "?S = ?S'" using S by simp
    have "\<exists>vbuf' ibuf'. mesh_loop_d (Some pts) n opacity nib base mv mi (i + 1) vc ic
            (Some vbuf) (Some ibuf)
        = Some (vc + 4 * int q, ic + 6 * int q, Some vbuf', Some ibuf')
      \<and> length vbuf' = length vbuf \<and> length ibuf' = length ibuf
      \<and> take (nat (vc + 4 * int q)) vbuf'
          = take (nat vc) vbuf @ concat (map (quad_d nib base opacity) (take q ?S'))
      \<and> take (nat (ic + 6 * int q)) ibuf'
          = take (nat ic) ibuf @ concat (map (\<lambda>j. quad_indices (vc + 4 * int j)) [0..<q])
      \<and> drop (nat (vc + 4 * int q)) vbuf' = drop (nat (vc + 4 * int q)) vbuf
      \<and> drop (nat (ic + 6 * int q)) ibuf' = drop (nat (ic + 6 * int q)) ibuf"
      using Suc.prems lt S0 by (intro Suc.IH) simp_all
    moreover have "mesh_loop_d (Some pts) n opacity nib base mv mi i vc ic (Some vbuf) (Some ibuf)
        = mesh_loop_d (Some pts) n opacity nib base mv mi (i + 1) vc ic (Some vbuf) (Some ibuf)"
      using lt r False by (subst mesh_loop_d.simps) (simp add: nondegenerate_d_def)
    ultimately show ?thesis by (simp only: S0)
  next
    case live: True
    then have S1: "?S = (?a, ?b) # ?S'" using S by simp
    show ?thesis
    proof (cases "vc + 4 > mv \<or> ic + 6 > mi")
      case full: True
      then have "q = 0" using Suc.prems(8) by (simp add: quad_capacity_0)
      moreover have "mesh_loop_d (Some pts) n opacity nib base mv mi i vc ic (Some vbuf) (Some ibuf)
          = Some (vc, ic, Some vbuf, Some ibuf)"
        using lt r live full by (subst mesh_loop_d.simps) (auto simp: nondegenerate_d_def)
      ultimately show ?thesis by simp
    next
      case room: False
      let ?qv = "quad_vertices_d nib base opacity ?a ?b"
      let ?qi = "quad_indices vc"
      let ?vbuf = "take (nat vc) vbuf @ ?qv @ drop (nat vc + length ?qv) vbuf"
      let ?ibuf = "take (nat ic) ibuf @ ?qi @ drop (nat ic + length ?qi) ibuf"
      let ?q' = "min (length ?S') (quad_capacity mv mi (vc + 4) (ic + 6))"
      have q: "q = Suc ?q'"
        using Suc.prems(8) quad_capacity_Suc [OF room] by (simp add: S1)
      have nv: "nat vc + length ?qv \<le> length vbuf"
        using Suc.prems(4,6) room by simp linarith
      have ni: "nat ic + length ?qi \<le> length ibuf"
        using Suc.prems(5,7) room by simp linarith
      have wv: "wr_list (Some vbuf) vc ?qv = Some (Some ?vbuf)"
        using Suc.prems(4) nv by (rule wr_list_Some)
      have wi: "wr_list (Some ibuf) ic ?qi = Some (Some ?ibuf)"
        using Suc.prems(5) ni by (rule wr_list_Some)
      have lv: "length ?vbuf = length vbuf" using nv by (rule length_overwrite)
      have li: "length ?ibuf = length ibuf" using ni by (rule length_overwrite)
      have "\<exists>vbuf' ibuf'. mesh_loop_d (Some pts) n opacity nib base mv mi (i + 1) (vc + 4) (ic + 6)
              (Some ?vbuf) (Some ?ibuf)
          = Some (vc + 4 + 4 * int ?q', ic + 6 + 6 * int ?q', Some vbuf', Some ibuf')
        \<and> length vbuf' = length ?vbuf \<and> length ibuf' = length ?ibuf
        \<and> take (nat (vc + 4 + 4 * int ?q')) vbuf'
            = take (nat (vc + 4)) ?vbuf @ concat (map (quad_d nib base opacity) (take ?q' ?S'))
        \<and> take (nat (ic + 6 + 6 * int ?q')) ibuf'
            = take (nat (ic + 6)) ?ibuf
              @ concat (map (\<lambda>j. quad_indices (vc + 4 + 4 * int j)) [0..<?q'])
        \<and> drop (nat (vc + 4 + 4 * int ?q')) vbuf' = drop (nat (vc + 4 + 4 * int ?q')) ?vbuf
        \<and> drop (nat (ic + 6 + 6 * int ?q')) ibuf' = drop (nat (ic + 6 + 6 * int ?q')) ?ibuf"
      proof (rule Suc.IH)
        show "nat (n - 1 - (i + 1)) = k" using Suc.prems(1) by simp
        show "0 \<le> i + 1" using Suc.prems(2) by simp
        show "n \<le> int (length pts)" by (rule Suc.prems(3))
        show "0 \<le> vc + 4" using Suc.prems(4) by simp
        show "0 \<le> ic + 6" using Suc.prems(5) by simp
        show "mv \<le> int (length ?vbuf)" using Suc.prems(6) by (simp only: lv)
        show "mi \<le> int (length ?ibuf)" using Suc.prems(7) by (simp only: li)
        show "?q' = ?q'" by (rule refl)
      qed
      then obtain vbuf' ibuf' where l:
        "mesh_loop_d (Some pts) n opacity nib base mv mi (i + 1) (vc + 4) (ic + 6)
              (Some ?vbuf) (Some ?ibuf)
          = Some (vc + 4 + 4 * int ?q', ic + 6 + 6 * int ?q', Some vbuf', Some ibuf')"
        "length vbuf' = length ?vbuf" "length ibuf' = length ?ibuf"
        "take (nat (vc + 4 + 4 * int ?q')) vbuf'
            = take (nat (vc + 4)) ?vbuf @ concat (map (quad_d nib base opacity) (take ?q' ?S'))"
        "take (nat (ic + 6 + 6 * int ?q')) ibuf'
            = take (nat (ic + 6)) ?ibuf
              @ concat (map (\<lambda>j. quad_indices (vc + 4 + 4 * int j)) [0..<?q'])"
        "drop (nat (vc + 4 + 4 * int ?q')) vbuf' = drop (nat (vc + 4 + 4 * int ?q')) ?vbuf"
        "drop (nat (ic + 6 + 6 * int ?q')) ibuf' = drop (nat (ic + 6 + 6 * int ?q')) ?ibuf"
        by blast
      have step: "mesh_loop_d (Some pts) n opacity nib base mv mi i vc ic (Some vbuf) (Some ibuf)
          = mesh_loop_d (Some pts) n opacity nib base mv mi (i + 1) (vc + 4) (ic + 6)
              (Some ?vbuf) (Some ?ibuf)"
        using lt r live room wv wi
        by (subst mesh_loop_d.simps) (simp add: nondegenerate_d_def)
      have cv: "vc + 4 * int q = vc + 4 + 4 * int ?q'" and ci: "ic + 6 * int q = ic + 6 + 6 * int ?q'"
        using q by simp_all
      have "nat (vc + 4) = nat vc + length ?qv"
        using Suc.prems(4) by simp
      then have tv: "take (nat (vc + 4)) ?vbuf = take (nat vc) vbuf @ ?qv"
        using take_overwrite [OF nv] by simp
      have "nat (ic + 6) = nat ic + length ?qi"
        using Suc.prems(5) by simp
      then have ti: "take (nat (ic + 6)) ?ibuf = take (nat ic) ibuf @ ?qi"
        using take_overwrite [OF ni] by simp
      have qs: "concat (map (quad_d nib base opacity) (take q ?S))
          = ?qv @ concat (map (quad_d nib base opacity) (take ?q' ?S'))"
        by (simp add: q S1 quad_d_def)
      have "[0..<q] = 0 # map Suc [0..<?q']"
        by (simp only: q upt_conv_Cons zero_less_Suc if_True map_Suc_upt)
      then have ixs: "concat (map (\<lambda>j. quad_indices (vc + 4 * int j)) [0..<q])
          = ?qi @ concat (map (\<lambda>j. quad_indices (vc + 4 + 4 * int j)) [0..<?q'])"
        by (simp add: comp_def algebra_simps)
      have g1: "mesh_loop_d (Some pts) n opacity nib base mv mi i vc ic (Some vbuf) (Some ibuf)
          = Some (vc + 4 * int q, ic + 6 * int q, Some vbuf', Some ibuf')"
        using l(1) by (simp only: step cv ci)
      have g2: "length vbuf' = length vbuf" "length ibuf' = length ibuf"
        using l(2,3) by (simp_all only: lv li)
      have g3: "take (nat (vc + 4 * int q)) vbuf'
          = take (nat vc) vbuf @ concat (map (quad_d nib base opacity) (take q ?S))"
        using l(4) by (simp only: cv tv qs append_assoc)
      have g4: "take (nat (ic + 6 * int q)) ibuf'
          = take (nat ic) ibuf @ concat (map (\<lambda>j. quad_indices (vc + 4 * int j)) [0..<q])"
        using l(5) by (simp only: ci ti ixs append_assoc)
      have ev: "nat (vc + 4 + 4 * int ?q') = nat vc + length ?qv + 4 * ?q'"
        using Suc.prems(4) by simp
      have "drop (nat vc + length ?qv + 4 * ?q') ?vbuf = drop (nat vc + length ?qv + 4 * ?q') vbuf"
        using nv by (rule drop_overwrite)
      then have "drop (nat (vc + 4 + 4 * int ?q')) ?vbuf = drop (nat (vc + 4 + 4 * int ?q')) vbuf"
        by (simp only: ev)
      then have g5: "drop (nat (vc + 4 * int q)) vbuf' = drop (nat (vc + 4 * int q)) vbuf"
        using l(6) by (simp only: cv)
      have ei: "nat (ic + 6 + 6 * int ?q') = nat ic + length ?qi + 6 * ?q'"
        using Suc.prems(5) by simp
      have "drop (nat ic + length ?qi + 6 * ?q') ?ibuf = drop (nat ic + length ?qi + 6 * ?q') ibuf"
        using ni by (rule drop_overwrite)
      then have "drop (nat (ic + 6 + 6 * int ?q')) ?ibuf = drop (nat (ic + 6 + 6 * int ?q')) ibuf"
        by (simp only: ei)
      then have g6: "drop (nat (ic + 6 * int q)) ibuf' = drop (nat (ic + 6 * int q)) ibuf"
        using l(7) by (simp only: ci)
      from g1 g2 g3 g4 g5 g6 show ?thesis by blast
    qed
  qed
qed

lemma live_segments_d_length: "length (live_segments_d ps) \<le> length ps - 1"
  by (induction ps rule: live_segments_d.induct) auto

lemma calculate_calligraphy_segments_d_result:
  assumes "point_count \<le> int (length pts)" and "max_segments \<le> int (length segs)"
    and S: "S = live_segments_d (take (nat point_count) pts)"
    and k: "k = min (length S) (nat max_segments)"
  shows "\<exists>segs'.
      calculate_calligraphy_segments_d (Some pts) point_count stroke_width opacity nib_angle_deg
          nib_width_factor (Some segs) max_segments
        = Some (int k, Some segs')
      \<and> length segs' = length segs
      \<and> take k segs'
          = map (descriptor_d (nib_direction_d nib_angle_deg)
                   (base_thickness_d stroke_width nib_width_factor) opacity) (take k S)"
proof (cases "point_count < 2 \<or> max_segments \<le> 0")
  case True
  have "k = 0"
  proof (cases "max_segments \<le> 0")
    case True
    then show ?thesis using k by simp
  next
    case False
    with True have "point_count < 2" by simp
    then have "length (take (nat point_count) pts) - 1 = 0" by simp
    then have "length S = 0"
      using live_segments_d_length [of "take (nat point_count) pts"] S by simp
    then show ?thesis using k by simp
  qed
  moreover have "calculate_calligraphy_segments_d (Some pts) point_count stroke_width opacity
      nib_angle_deg nib_width_factor (Some segs) max_segments = Some (0, Some segs)"
    using True by (simp add: calculate_calligraphy_segments_d_def)
  ultimately show ?thesis by simp
next
  case False
  let ?nib = "nib_direction_d nib_angle_deg"
  let ?base = "base_thickness_d stroke_width nib_width_factor"
  let ?d = "descriptor_d ?nib ?base opacity"
  have S0: "live_segments_d (drop (nat 0) (take (nat point_count) pts)) = S"
    using S by simp
  have "\<exists>buf'. calc_loop_d (Some pts) point_count opacity ?nib ?base max_segments 0 0 (Some segs)
        = Some (min (0 + int (length (live_segments_d (drop (nat 0) (take (nat point_count) pts)))))
                  max_segments, Some buf')
      \<and> length buf' = length segs
      \<and> take (nat (min (0 + int (length (live_segments_d
                (drop (nat 0) (take (nat point_count) pts))))) max_segments)) buf'
          = take (nat 0) segs
            @ take (nat (max_segments - 0))
                (map ?d (live_segments_d (drop (nat 0) (take (nat point_count) pts))))"
    using assms(1,2) False by (intro calc_loop_d_result [OF refl]) simp_all
  then obtain segs' where l:
    "calc_loop_d (Some pts) point_count opacity ?nib ?base max_segments 0 0 (Some segs)
        = Some (min (0 + int (length S)) max_segments, Some segs')"
    "length segs' = length segs"
    "take (nat (min (0 + int (length S)) max_segments)) segs'
          = take (nat 0) segs @ take (nat (max_segments - 0)) (map ?d S)"
    unfolding S0 by blast
  have ik: "min (0 + int (length S)) max_segments = int k"
    using False k by simp linarith
  have res: "calculate_calligraphy_segments_d (Some pts) point_count stroke_width opacity
      nib_angle_deg nib_width_factor (Some segs) max_segments = Some (int k, Some segs')"
    using False l(1) [unfolded ik]
    by (simp add: calculate_calligraphy_segments_d_def nib_direction_d_def base_thickness_d_def)
  have "take k segs' = take (nat max_segments) (map ?d S)"
    using l(3) [unfolded ik] by simp
  also have "\<dots> = map ?d (take (nat max_segments) S)"
    by (simp add: take_map)
  also have "take (nat max_segments) S = take k S"
    using take_min_length [of S "nat max_segments"] k by simp
  finally show ?thesis using res l(2) by blast
qed

lemma build_calligraphy_mesh_d_result:
  assumes "point_count \<le> int (length pts)"
    and "max_vertices \<le> int (length vs)" and "max_indices \<le> int (length ixs)"
    and S: "S = live_segments_d (take (nat point_count) pts)"
    and q: "q = min (length S) (quad_capacity max_vertices max_indices 0 0)"
  shows "\<exists>vs' ixs'.
      build_calligraphy_mesh_d (Some pts) point_count stroke_width opacity nib_angle_deg
          nib_width_factor (Some vs) max_vertices (Some ixs) max_indices (Some c)
        = Some (4 * int q, Some vs', Some ixs', Some (6 * int q))
      \<and> length vs' = length vs \<and> length ixs' = length ixs
      \<and> take (4 * q) vs'
          = concat (map (quad_d (nib_direction_d nib_angle_deg)
                           (base_thickness_d stroke_width nib_width_factor) opacity) (take q S))
      \<and> take (6 * q) ixs' = concat (map (\<lambda>j. quad_indices (4 * int j)) [0..<q])
      \<and> drop (4 * q) vs' = drop (4 * q) vs
      \<and> drop (6 * q) ixs' = drop (6 * q) ixs"
proof (cases "point_count < 2 \<or> max_vertices < 4 \<or> max_indices < 6")
  case True
  have "q = 0"
  proof (cases "point_count < 2")
    case True
    then have "length (take (nat point_count) pts) - 1 = 0" by simp
    then have "length S = 0"
      using live_segments_d_length [of "take (nat point_count) pts"] S by simp
    then show ?thesis using q by simp
  next
    case False
    with True have "0 + 4 > max_vertices \<or> 0 + 6 > max_indices" by simp
    then have "quad_capacity max_vertices max_indices 0 0 = 0" by (rule quad_capacity_0)
    then show ?thesis using q by simp
  qed
  moreover have "build_calligraphy_mesh_d (Some pts) point_count stroke_width opacity nib_angle_deg
      nib_width_factor (Some vs) max_vertices (Some ixs) max_indices (Some c)
        = Some (0, Some vs, Some ixs, Some 0)"
    using True by (simp add: build_calligraphy_mesh_d_def)
  ultimately show ?thesis by simp
next
  case False
  let ?nib = "nib_direction_d nib_angle_deg"
  let ?base = "base_thickness_d stroke_width nib_width_factor"
  have S0: "live_segments_d (drop (nat 0) (take (nat point_count) pts)) = S"
    using S by simp
  have "\<exists>vbuf' ibuf'. mesh_loop_d (Some pts) point_count opacity ?nib ?base max_vertices max_indices
            0 0 0 (Some vs) (Some ixs)
        = Some (0 + 4 * int q, 0 + 6 * int q, Some vbuf', Some ibuf')
      \<and> length vbuf' = length vs \<and> length ibuf' = length ixs
      \<and> take (nat (0 + 4 * int q)) vbuf'
          = take (nat 0) vs
            @ concat (map (quad_d ?nib ?base opacity)
                        (take q (live_segments_d (drop (nat 0) (take (nat point_count) pts)))))
      \<and> take (nat (0 + 6 * int q)) ibuf'
          = take (nat 0) ixs @ concat (map (\<lambda>j. quad_indices (0 + 4 * int j)) [0..<q])
      \<and> drop (nat (0 + 4 * int q)) vbuf' = drop (nat (0 + 4 * int q)) vs
      \<and> drop (nat (0 + 6 * int q)) ibuf' = drop (nat (0 + 6 * int q)) ixs"
  proof (rule mesh_loop_d_result [OF refl])
    show "(0::int) \<le> 0" "(0::int) \<le> 0" "(0::int) \<le> 0" by simp_all
    show "point_count \<le> int (length pts)" by (rule assms(1))
    show "max_vertices \<le> int (length vs)" by (rule assms(2))
    show "max_indices \<le> int (length ixs)" by (rule assms(3))
    show "q = min (length (live_segments_d (drop (nat 0) (take (nat point_count) pts))))
                (quad_capacity max_vertices max_indices 0 0)"
      using q by (simp only: S0)
  qed
  then obtain vs' ixs' where l:
    "mesh_loop_d (Some pts) point_count opacity ?nib ?base max_vertices max_indices
            0 0 0 (Some vs) (Some ixs)
        = Some (0 + 4 * int q, 0 + 6 * int q, Some vs', Some ixs')"
    "length vs' = length vs" "length ixs' = length ixs"
    "take (nat (0 + 4 * int q)) vs'
          = take (nat 0) vs @ concat (map (quad_d ?nib ?base opacity) (take q S))"
    "take (nat (0 + 6 * int q)) ixs'
          = take (nat 0) ixs @ concat (map (\<lambda>j. quad_indices (0 + 4 * int j)) [0..<q])"
    "drop (nat (0 + 4 * int q)) vs' = drop (nat (0 + 4 * int q)) vs"
    "drop (nat (0 + 6 * int q)) ixs' = drop (nat (0 + 6 * int q)) ixs"
    unfolding S0 by blast
  have n4: "nat (0 + 4 * int q) = 4 * q" and n6: "nat (0 + 6 * int q) = 6 * q"
    by simp_all
  have res: "build_calligraphy_mesh_d (Some pts) point_count stroke_width opacity nib_angle_deg
      nib_width_factor (Some vs) max_vertices (Some ixs) max_indices (Some c)
        = Some (4 * int q, Some vs', Some ixs', Some (6 * int q))"
    using False l(1)
    by (simp add: build_calligraphy_mesh_d_def nib_direction_d_def base_thickness_d_def)
  have t4: "take (4 * q) vs' = concat (map (quad_d ?nib ?base opacity) (take q S))"
    using l(4) by (simp only: n4) simp
  have t6: "take (6 * q) ixs' = concat (map (\<lambda>j. quad_indices (4 * int j)) [0..<q])"
    using l(5) by (simp only: n6) simp
  have d4: "drop (4 * q) vs' = drop (4 * q) vs"
    using l(6) by (simp only: n4)
  have d6: "drop (6 * q) ixs' = drop (6 * q) ixs"
    using l(7) by (simp only: n6)
  from res l(2,3) t4 t6 d4 d6 show ?thesis by blast
qed

lemma live_segments_d_nondegenerate:
  "ab \<in> set (live_segments_d ps) \<Longrightarrow> nondegenerate_d (fst ab) (snd ab)"
  by (induction ps rule: live_segments_d.induct) (auto split: if_splits)

text \<open>
  The counts and the indices of the mesh are the same over doubles: for non-null arrays that
  hold the declared counts the call returns \<open>4 q\<close>, stores \<open>6 q\<close>, writes only indices
  below \<open>4 q\<close> and nothing behind the \<open>4 q\<close> vertices and the \<open>6 q\<close> indices.
\<close>

lemma mesh_counts_and_indices_d:
  assumes "point_count \<le> int (length pts)"
    and "max_vertices \<le> int (length vs)" and "max_indices \<le> int (length ixs)"
  shows "\<exists>q vs' ixs'.
      build_calligraphy_mesh_d (Some pts) point_count stroke_width opacity nib_angle_deg
          nib_width_factor (Some vs) max_vertices (Some ixs) max_indices (Some c)
        = Some (4 * int q, Some vs', Some ixs', Some (6 * int q))
      \<and> (\<forall>x \<in> set (emitted (6 * int q) (Some ixs')). 0 \<le> x \<and> x < 4 * int q)
      \<and> length vs' = length vs \<and> drop (4 * q) vs' = drop (4 * q) vs
      \<and> length ixs' = length ixs \<and> drop (6 * q) ixs' = drop (6 * q) ixs"
proof -
  let ?nib = "nib_direction_d nib_angle_deg"
  let ?base = "base_thickness_d stroke_width nib_width_factor"
  define S where "S = live_segments_d (take (nat point_count) pts)"
  define q where "q = min (length S) (quad_capacity max_vertices max_indices 0 0)"
  obtain vs' ixs' where m:
    "build_calligraphy_mesh_d (Some pts) point_count stroke_width opacity nib_angle_deg
          nib_width_factor (Some vs) max_vertices (Some ixs) max_indices (Some c)
        = Some (4 * int q, Some vs', Some ixs', Some (6 * int q))"
    "length vs' = length vs" "length ixs' = length ixs"
    "take (6 * q) ixs' = concat (map (\<lambda>j. quad_indices (4 * int j)) [0..<q])"
    "drop (4 * q) vs' = drop (4 * q) vs"
    "drop (6 * q) ixs' = drop (6 * q) ixs"
    using build_calligraphy_mesh_d_result [OF assms S_def q_def] by blast
  have e: "emitted (6 * int q) (Some ixs') = take (6 * q) ixs'"
    by (simp add: emitted_def nat_mult_distrib)
  have "\<forall>x \<in> set (emitted (6 * int q) (Some ixs')). 0 \<le> x \<and> x < 4 * int q"
  proof
    fix x
    assume "x \<in> set (emitted (6 * int q) (Some ixs'))"
    then obtain j where j: "j < q" "x \<in> set (quad_indices (4 * int j))"
      unfolding e m(4) by auto
    from quad_indices_range [OF j(2)] j(1) show "0 \<le> x \<and> x < 4 * int q"
      by linarith
  qed
  with m show ?thesis by blast
qed

section \<open>Thickness in double arithmetic\<close>

text \<open>
  \<open>std::max\<close> of a finite floor and any double is not NaN, is at least the floor, and is
  finite unless the second argument is \<open>+infinity\<close>.
\<close>

lemma std_max_Fin:
  "\<not> is_nan (std_max (Fin c) X) \<and> fle (Fin c) (std_max (Fin c) X)
     \<and> is_finite (std_max (Fin c) X) = (X \<noteq> PInf)"
  by (cases X) (simp_all add: std_max_def)

lemma segment_thickness_d_max:
  "segment_thickness_d nib base a b = std_max lit_0_6 (thickness_product_d nib base a b)"
  by (simp add: segment_thickness_d_def thickness_product_d_def Let_def)

lemma mesh_thickness_d_eq_segment_thickness_d:
  "mesh_thickness_d nib base a b = segment_thickness_d nib base a b"
  by (simp add: mesh_thickness_d_def segment_thickness_d_def Let_def)

lemma segment_thickness_d_floor:
  "\<not> is_nan (segment_thickness_d nib base a b) \<and> fle lit_0_6 (segment_thickness_d nib base a b)
     \<and> is_finite (segment_thickness_d nib base a b) = (thickness_product_d nib base a b \<noteq> PInf)"
  unfolding segment_thickness_d_max lit_0_6 by (rule std_max_Fin)

text \<open>
  C7 (as amended). In double arithmetic, for every nib direction, every base thickness and
  every pair of samples \<open>a\<close>, \<open>b\<close> (finite or not), the thickness the mesh builder computes
  for the segment (line 361) is the thickness the segment calculator computes for it (lines
  147 to 150); it is not NaN; it is at least the floor \<open>0.6\<close>; and it is finite exactly when
  the product \<open>thickness_base * (thickness_offset + thickness_range * cross) * pressure\<close> is
  not \<open>+infinity\<close>. For input and output arrays that hold the declared counts, every
  descriptor \<open>calculate_calligraphy_segments\<close> emits carries the thickness of a non-degenerate
  pair of consecutive input samples, so it is not NaN and at least \<open>0.6\<close>. The thickness
  is not finite for every finite input: the product overflows (last theorem of this
  section).
\<close>

theorem thickness_floor_and_finiteness:
  assumes "point_count \<le> int (length pts)" and "max_segments \<le> int (length segs)"
  shows "(mesh_thickness_d nib_dir thickness_base a b
            = segment_thickness_d nib_dir thickness_base a b
          \<and> \<not> is_nan (segment_thickness_d nib_dir thickness_base a b)
          \<and> fle lit_0_6 (segment_thickness_d nib_dir thickness_base a b)
          \<and> is_finite (segment_thickness_d nib_dir thickness_base a b)
              = (thickness_product_d nib_dir thickness_base a b \<noteq> PInf))
       \<and> (\<exists>n segs'.
            calculate_calligraphy_segments_d (Some pts) point_count stroke_width opacity
                nib_angle_deg nib_width_factor (Some segs) max_segments
              = Some (n, Some segs')
            \<and> (\<forall>s \<in> set (emitted n (Some segs')).
                  \<not> is_nan (dseg_thickness s) \<and> fle lit_0_6 (dseg_thickness s)
                  \<and> (\<exists>p q. (p, q) \<in> set (live_segments_d (take (nat point_count) pts))
                        \<and> dseg_thickness s
                            = segment_thickness_d (nib_direction_d nib_angle_deg)
                                (base_thickness_d stroke_width nib_width_factor) p q)))"
proof
  show "mesh_thickness_d nib_dir thickness_base a b
            = segment_thickness_d nib_dir thickness_base a b
          \<and> \<not> is_nan (segment_thickness_d nib_dir thickness_base a b)
          \<and> fle lit_0_6 (segment_thickness_d nib_dir thickness_base a b)
          \<and> is_finite (segment_thickness_d nib_dir thickness_base a b)
              = (thickness_product_d nib_dir thickness_base a b \<noteq> PInf)"
    using segment_thickness_d_floor [of nib_dir thickness_base a b]
      mesh_thickness_d_eq_segment_thickness_d [of nib_dir thickness_base a b]
    by simp
next
  let ?nib = "nib_direction_d nib_angle_deg"
  let ?base = "base_thickness_d stroke_width nib_width_factor"
  let ?S = "live_segments_d (take (nat point_count) pts)"
  let ?k = "min (length ?S) (nat max_segments)"
  obtain segs' where c:
    "calculate_calligraphy_segments_d (Some pts) point_count stroke_width opacity nib_angle_deg
          nib_width_factor (Some segs) max_segments = Some (int ?k, Some segs')"
    "take ?k segs' = map (descriptor_d ?nib ?base opacity) (take ?k ?S)"
    using calculate_calligraphy_segments_d_result [OF assms(1,2) refl refl] by blast
  have "\<forall>s \<in> set (emitted (int ?k) (Some segs')).
          \<not> is_nan (dseg_thickness s) \<and> fle lit_0_6 (dseg_thickness s)
          \<and> (\<exists>p q. (p, q) \<in> set ?S
                \<and> dseg_thickness s = segment_thickness_d ?nib ?base p q)"
  proof
    fix s
    assume "s \<in> set (emitted (int ?k) (Some segs'))"
    then have "s \<in> set (map (descriptor_d ?nib ?base opacity) (take ?k ?S))"
      by (simp add: emitted_def c(2))
    then obtain ab where ab: "ab \<in> set (take ?k ?S)" "s = descriptor_d ?nib ?base opacity ab"
      by auto
    obtain p q where pq: "ab = (p, q)" by (cases ab) auto
    from ab(1) have "ab \<in> set ?S" by (rule in_set_takeD)
    moreover from ab(2) pq have "dseg_thickness s = segment_thickness_d ?nib ?base p q"
      by (simp add: descriptor_d_def)
    ultimately show "\<not> is_nan (dseg_thickness s) \<and> fle lit_0_6 (dseg_thickness s)
          \<and> (\<exists>p q. (p, q) \<in> set ?S
                \<and> dseg_thickness s = segment_thickness_d ?nib ?base p q)"
      using segment_thickness_d_floor [of ?nib ?base p q] pq by auto
  qed
  with c(1) show "\<exists>n segs'.
            calculate_calligraphy_segments_d (Some pts) point_count stroke_width opacity
                nib_angle_deg nib_width_factor (Some segs) max_segments
              = Some (n, Some segs')
            \<and> (\<forall>s \<in> set (emitted n (Some segs')).
                  \<not> is_nan (dseg_thickness s) \<and> fle lit_0_6 (dseg_thickness s)
                  \<and> (\<exists>p q. (p, q) \<in> set (live_segments_d (take (nat point_count) pts))
                        \<and> dseg_thickness s
                            = segment_thickness_d (nib_direction_d nib_angle_deg)
                                (base_thickness_d stroke_width nib_width_factor) p q))"
    by blast
qed

text \<open>
  The theorem at the segment from \<open>(0,0)\<close> to \<open>(1,0)\<close>, stroke width 1, nib angle 0: the
  product is \<open>0.35\<close>, the thickness is the floor.
\<close>

theorem thickness_floor_and_finiteness_witness:
  "(2::int) \<le> int (length [sample_d 0 0 1 0, sample_d 1 0 1 1])
   \<and> (1::int) \<le> int (length [blank_segment_d])
   \<and> mesh_thickness_d \<lparr>dvec_x = Fin 1, dvec_y = Fin 0\<rparr> (Fin 1)
         (sample_d 0 0 1 0) (sample_d 1 0 1 1)
       = segment_thickness_d \<lparr>dvec_x = Fin 1, dvec_y = Fin 0\<rparr> (Fin 1)
           (sample_d 0 0 1 0) (sample_d 1 0 1 1)
   \<and> \<not> is_nan (segment_thickness_d \<lparr>dvec_x = Fin 1, dvec_y = Fin 0\<rparr> (Fin 1)
                 (sample_d 0 0 1 0) (sample_d 1 0 1 1))
   \<and> fle lit_0_6 (segment_thickness_d \<lparr>dvec_x = Fin 1, dvec_y = Fin 0\<rparr> (Fin 1)
                    (sample_d 0 0 1 0) (sample_d 1 0 1 1))
   \<and> is_finite (segment_thickness_d \<lparr>dvec_x = Fin 1, dvec_y = Fin 0\<rparr> (Fin 1)
                  (sample_d 0 0 1 0) (sample_d 1 0 1 1))
       = (thickness_product_d \<lparr>dvec_x = Fin 1, dvec_y = Fin 0\<rparr> (Fin 1)
            (sample_d 0 0 1 0) (sample_d 1 0 1 1) \<noteq> PInf)
   \<and> (\<exists>n segs'.
          calculate_calligraphy_segments_d (Some [sample_d 0 0 1 0, sample_d 1 0 1 1]) 2
              (Fin 1) (Fin 2) (Fin 0) (Fin 1) (Some [blank_segment_d]) 1
            = Some (n, Some segs')
          \<and> (\<forall>s \<in> set (emitted n (Some segs')).
                \<not> is_nan (dseg_thickness s) \<and> fle lit_0_6 (dseg_thickness s)
                \<and> (\<exists>p q. (p, q) \<in> set (live_segments_d
                                          (take (nat 2) [sample_d 0 0 1 0, sample_d 1 0 1 1]))
                      \<and> dseg_thickness s
                          = segment_thickness_d (nib_direction_d (Fin 0))
                              (base_thickness_d (Fin 1) (Fin 1)) p q)))
   \<and> thickness_product_d \<lparr>dvec_x = Fin 1, dvec_y = Fin 0\<rparr> (Fin 1)
         (sample_d 0 0 1 0) (sample_d 1 0 1 1)
       = lit_0_35
   \<and> calculate_calligraphy_segments_d (Some [sample_d 0 0 1 0, sample_d 1 0 1 1]) 2
         (Fin 1) (Fin 2) (Fin 0) (Fin 1) (Some [blank_segment_d]) 1
       = Some (1, Some [\<lparr>dseg_x1 = Fin 0, dseg_y1 = Fin 0, dseg_x2 = Fin 1, dseg_y2 = Fin 0,
                         dseg_thickness = lit_0_6, dseg_alpha = Fin 2\<rparr>])"
proof -
  have h1: "(2::int) \<le> int (length [sample_d 0 0 1 0, sample_d 1 0 1 1])" by simp
  have h2: "(1::int) \<le> int (length [blank_segment_d])" by simp
  from thickness_floor_and_finiteness [OF h1 h2,
      where nib_dir = "\<lparr>dvec_x = Fin 1, dvec_y = Fin 0\<rparr>" and thickness_base = "Fin 1"
        and a = "sample_d 0 0 1 0" and b = "sample_d 1 0 1 1" and stroke_width = "Fin 1"
        and opacity = "Fin 2" and nib_angle_deg = "Fin 0" and nib_width_factor = "Fin 1"]
    h1 h2 thickness_product_example calc_example
  show ?thesis by blast
qed

text \<open>
  C7 as stated fails: the segment from \<open>(0,0)\<close> to \<open>(1,0)\<close> with pressure 1 is finite and
  not degenerate, the stroke width \<open>2^1023\<close> (about \<open>9e307\<close>) and the nib-width factor
  \<open>2.5\<close> are finite doubles, and \<open>thickness_base = stroke_width * clamped_width_factor\<close>
  (line 121 and line 344) is \<open>2.5 * 2^1023\<close>, above the largest double: it is
  \<open>+infinity\<close>, and so is the thickness both operations compute.
\<close>

lemma base_thickness_d_overflow: "base_thickness_d (Fin (2 ^ 1023)) (Fin (5 / 2)) = PInf"
proof -
  have "round_to_double (2 ^ 1023 * (5 / 2)) = PInf"
    by (rule round_to_double_overflow) (simp add: overflow_bound_def)
  then show ?thesis
    by (simp add: base_thickness_d_def double_eval)
qed

lemma thickness_product_overflow:
  "thickness_product_d \<lparr>dvec_x = Fin 1, dvec_y = Fin 0\<rparr> PInf (sample_d 0 0 1 0) (sample_d 1 0 1 1)
     = PInf"
  using round_thickness_offset
  by (simp add: thickness_product_d_def sample_d_def length_squared_d_def vec_divide_d_def
      cross_d_def double_eval)

text \<open>
  The same overflow at the stroke width \<open>1e308\<close>, whose nearest double is
  \<open>5010420900022432 * 2^971\<close>.
\<close>

lemma lit_1e308: "round_to_double (10 ^ 308) = Fin (5010420900022432 * 2 ^ 971)"
  using round_to_double_normal [of 1023 "10 ^ 308" 5010420900022432]
  by (simp add: round_half_even_def overflow_bound_def)

lemma base_thickness_d_overflow_1e308:
  "base_thickness_d (Fin (5010420900022432 * 2 ^ 971)) (Fin (5 / 2)) = PInf"
proof -
  have "round_to_double (5010420900022432 * 2 ^ 971 * (5 / 2)) = PInf"
    by (rule round_to_double_overflow) (simp add: overflow_bound_def)
  then show ?thesis
    by (simp add: base_thickness_d_def double_eval)
qed

theorem thickness_overflows_to_infinity:
  "calculate_calligraphy_segments_d (Some [sample_d 0 0 1 0, sample_d 1 0 1 1]) 2
       (Fin (2 ^ 1023)) (Fin 1) (Fin 0) (Fin (5 / 2)) (Some [blank_segment_d]) 1
     = Some (1, Some [\<lparr>dseg_x1 = Fin 0, dseg_y1 = Fin 0, dseg_x2 = Fin 1, dseg_y2 = Fin 0,
                       dseg_thickness = PInf, dseg_alpha = Fin 1\<rparr>])
   \<and> mesh_thickness_d (nib_direction_d (Fin 0)) (base_thickness_d (Fin (2 ^ 1023)) (Fin (5 / 2)))
         (sample_d 0 0 1 0) (sample_d 1 0 1 1)
     = PInf
   \<and> \<not> is_finite PInf
   \<and> nondegenerate_d (sample_d 0 0 1 0) (sample_d 1 0 1 1)
   \<and> round_to_double (2 ^ 1023) = Fin (2 ^ 1023)
   \<and> round_to_double (5 / 2) = Fin (5 / 2)"
proof -
  have t: "segment_thickness_d \<lparr>dvec_x = Fin 1, dvec_y = Fin 0\<rparr> PInf
             (sample_d 0 0 1 0) (sample_d 1 0 1 1) = PInf"
    by (simp add: segment_thickness_d_max thickness_product_overflow lit_0_6 std_max_def)
  have c: "calculate_calligraphy_segments_d (Some [sample_d 0 0 1 0, sample_d 1 0 1 1]) 2
       (Fin (2 ^ 1023)) (Fin 1) (Fin 0) (Fin (5 / 2)) (Some [blank_segment_d]) 1
     = Some (1, Some [\<lparr>dseg_x1 = Fin 0, dseg_y1 = Fin 0, dseg_x2 = Fin 1, dseg_y2 = Fin 0,
                       dseg_thickness = PInf, dseg_alpha = Fin 1\<rparr>])"
    using t nib_direction_d_0 base_thickness_d_overflow
    by (simp add: calculate_calligraphy_segments_d_def calc_loop_d.simps rd_def wr_def
        nib_direction_d_def base_thickness_d_def
        length_squared_d_def fsub_def round_to_double_numeral lit_1e_12 sample_d_def)
  have m: "mesh_thickness_d (nib_direction_d (Fin 0)) (base_thickness_d (Fin (2 ^ 1023)) (Fin (5 / 2)))
         (sample_d 0 0 1 0) (sample_d 1 0 1 1) = PInf"
    by (simp only: mesh_thickness_d_eq_segment_thickness_d nib_direction_d_0
        base_thickness_d_overflow t)
  from c m nondegenerate_unit round_2_1023 round_5_2 show ?thesis by simp
qed

section \<open>Opacity and alpha in double arithmetic\<close>

text \<open>
  \<open>std::clamp\<close> to \<open>[0, 1]\<close> returns NaN for NaN, and a value in \<open>[0, 1]\<close> for every
  other double. Every vertex of a quad carries the clamped product of the opacity and the
  average pressure of its segment (line 375).
\<close>

lemma std_clamp_unit:
  "is_nan (std_clamp v (Fin 0) (Fin 1)) = is_nan v
   \<and> (is_nan (std_clamp v (Fin 0) (Fin 1))
        \<or> fle (Fin 0) (std_clamp v (Fin 0) (Fin 1)) \<and> fle (std_clamp v (Fin 0) (Fin 1)) (Fin 1))"
  by (cases v) (simp_all add: std_clamp_def)

lemma quad_vertices_d_alpha:
  "v \<in> set (quad_vertices_d nib base opacity a b) \<Longrightarrow>
     dvtx_alpha v = std_clamp (fmul opacity (segment_pressure_d a b)) (Fin 0) (Fin 1)"
  by (auto simp: quad_vertices_d_def segment_pressure_d_def Let_def)

text \<open>
  C2 (as amended). In double arithmetic, for arrays that hold the declared counts and for
  every value of the parameters, also an opacity outside \<open>[0,1]\<close>: the opacity of every
  descriptor \<open>calculate_calligraphy_segments\<close> emits is the opacity parameter itself, not
  clamped; the alpha of every vertex \<open>build_calligraphy_mesh\<close> emits is
  \<open>std::clamp(opacity * pressure, 0.0, 1.0)\<close> for the average pressure of a non-degenerate
  pair of consecutive input samples, it is NaN exactly when that product is NaN, and it lies
  in \<open>[0,1]\<close> otherwise.
\<close>

theorem emitted_alpha_range:
  assumes "point_count \<le> int (length pts)" and "max_segments \<le> int (length segs)"
    and "max_vertices \<le> int (length vs)" and "max_indices \<le> int (length ixs)"
  shows "(\<exists>n segs'.
            calculate_calligraphy_segments_d (Some pts) point_count stroke_width opacity
                nib_angle_deg nib_width_factor (Some segs) max_segments
              = Some (n, Some segs')
            \<and> (\<forall>s \<in> set (emitted n (Some segs')). dseg_alpha s = opacity))
       \<and> (\<exists>n vs' ixs' c'.
            build_calligraphy_mesh_d (Some pts) point_count stroke_width opacity nib_angle_deg
                nib_width_factor (Some vs) max_vertices (Some ixs) max_indices (Some c)
              = Some (n, Some vs', Some ixs', c')
            \<and> (\<forall>v \<in> set (emitted n (Some vs')).
                  (\<exists>a b. (a, b) \<in> set (live_segments_d (take (nat point_count) pts))
                      \<and> dvtx_alpha v
                          = std_clamp (fmul opacity (segment_pressure_d a b)) (Fin 0) (Fin 1)
                      \<and> is_nan (dvtx_alpha v) = is_nan (fmul opacity (segment_pressure_d a b)))
                  \<and> (is_nan (dvtx_alpha v)
                       \<or> fle (Fin 0) (dvtx_alpha v) \<and> fle (dvtx_alpha v) (Fin 1))))"
proof
  let ?nib = "nib_direction_d nib_angle_deg"
  let ?base = "base_thickness_d stroke_width nib_width_factor"
  let ?S = "live_segments_d (take (nat point_count) pts)"
  let ?k = "min (length ?S) (nat max_segments)"
  obtain segs' where c:
    "calculate_calligraphy_segments_d (Some pts) point_count stroke_width opacity nib_angle_deg
          nib_width_factor (Some segs) max_segments = Some (int ?k, Some segs')"
    "take ?k segs' = map (descriptor_d ?nib ?base opacity) (take ?k ?S)"
    using calculate_calligraphy_segments_d_result [OF assms(1,2) refl refl] by blast
  have "\<forall>s \<in> set (emitted (int ?k) (Some segs')). dseg_alpha s = opacity"
    by (auto simp: emitted_def c(2) descriptor_d_def)
  with c(1) show "\<exists>n segs'.
            calculate_calligraphy_segments_d (Some pts) point_count stroke_width opacity
                nib_angle_deg nib_width_factor (Some segs) max_segments
              = Some (n, Some segs')
            \<and> (\<forall>s \<in> set (emitted n (Some segs')). dseg_alpha s = opacity)"
    by blast
next
  let ?nib = "nib_direction_d nib_angle_deg"
  let ?base = "base_thickness_d stroke_width nib_width_factor"
  let ?S = "live_segments_d (take (nat point_count) pts)"
  let ?q = "min (length ?S) (quad_capacity max_vertices max_indices 0 0)"
  obtain vs' ixs' where m:
    "build_calligraphy_mesh_d (Some pts) point_count stroke_width opacity nib_angle_deg
          nib_width_factor (Some vs) max_vertices (Some ixs) max_indices (Some c)
        = Some (4 * int ?q, Some vs', Some ixs', Some (6 * int ?q))"
    "take (4 * ?q) vs' = concat (map (quad_d ?nib ?base opacity) (take ?q ?S))"
    using build_calligraphy_mesh_d_result [OF assms(1,3,4) refl refl] by blast
  have e: "emitted (4 * int ?q) (Some vs') = take (4 * ?q) vs'"
    by (simp add: emitted_def nat_mult_distrib)
  have "\<forall>v \<in> set (emitted (4 * int ?q) (Some vs')).
          (\<exists>a b. (a, b) \<in> set ?S
              \<and> dvtx_alpha v = std_clamp (fmul opacity (segment_pressure_d a b)) (Fin 0) (Fin 1)
              \<and> is_nan (dvtx_alpha v) = is_nan (fmul opacity (segment_pressure_d a b)))
          \<and> (is_nan (dvtx_alpha v) \<or> fle (Fin 0) (dvtx_alpha v) \<and> fle (dvtx_alpha v) (Fin 1))"
  proof
    fix v
    assume "v \<in> set (emitted (4 * int ?q) (Some vs'))"
    then obtain ab where ab: "ab \<in> set (take ?q ?S)" "v \<in> set (quad_d ?nib ?base opacity ab)"
      unfolding e m(2) by auto
    obtain a b where pq: "ab = (a, b)" by (cases ab) auto
    from ab(1) have inS: "(a, b) \<in> set ?S" unfolding pq by (rule in_set_takeD)
    from ab(2) have al: "dvtx_alpha v
        = std_clamp (fmul opacity (segment_pressure_d a b)) (Fin 0) (Fin 1)"
      unfolding pq quad_d_def by (simp add: quad_vertices_d_alpha)
    from inS al std_clamp_unit [of "fmul opacity (segment_pressure_d a b)"]
    show "(\<exists>a b. (a, b) \<in> set ?S
              \<and> dvtx_alpha v = std_clamp (fmul opacity (segment_pressure_d a b)) (Fin 0) (Fin 1)
              \<and> is_nan (dvtx_alpha v) = is_nan (fmul opacity (segment_pressure_d a b)))
          \<and> (is_nan (dvtx_alpha v) \<or> fle (Fin 0) (dvtx_alpha v) \<and> fle (dvtx_alpha v) (Fin 1))"
      by auto
  qed
  with m(1) show "\<exists>n vs' ixs' c'.
            build_calligraphy_mesh_d (Some pts) point_count stroke_width opacity nib_angle_deg
                nib_width_factor (Some vs) max_vertices (Some ixs) max_indices (Some c)
              = Some (n, Some vs', Some ixs', c')
            \<and> (\<forall>v \<in> set (emitted n (Some vs')).
                  (\<exists>a b. (a, b) \<in> set (live_segments_d (take (nat point_count) pts))
                      \<and> dvtx_alpha v
                          = std_clamp (fmul opacity (segment_pressure_d a b)) (Fin 0) (Fin 1)
                      \<and> is_nan (dvtx_alpha v) = is_nan (fmul opacity (segment_pressure_d a b)))
                  \<and> (is_nan (dvtx_alpha v)
                       \<or> fle (Fin 0) (dvtx_alpha v) \<and> fle (dvtx_alpha v) (Fin 1)))"
    by blast
qed

text \<open>The mesh of the segment from \<open>(0,0)\<close> to \<open>(1,0)\<close>, stroke width 1, nib angle 0.\<close>

lemma mesh_example_d:
  "build_calligraphy_mesh_d (Some [sample_d 0 0 1 0, sample_d 1 0 1 1]) 2 (Fin 1) (Fin 2) (Fin 0)
       (Fin 1) (Some [blank_vertex_d, blank_vertex_d, blank_vertex_d, blank_vertex_d]) 4
       (Some [0, 0, 0, 0, 0, 0]) 6 (Some 7)
     = Some (4, Some [\<lparr>dvtx_x = Fin 0, dvtx_y = Fin (- (5404319552844595 / 2 ^ 54)),
                        dvtx_alpha = Fin 1\<rparr>,
                      \<lparr>dvtx_x = Fin 0, dvtx_y = Fin (5404319552844595 / 2 ^ 54),
                        dvtx_alpha = Fin 1\<rparr>,
                      \<lparr>dvtx_x = Fin 1, dvtx_y = Fin (- (5404319552844595 / 2 ^ 54)),
                        dvtx_alpha = Fin 1\<rparr>,
                      \<lparr>dvtx_x = Fin 1, dvtx_y = Fin (5404319552844595 / 2 ^ 54),
                        dvtx_alpha = Fin 1\<rparr>],
             Some [0, 2, 1, 1, 2, 3], Some 6)"
  using thickness_example nib_direction_d_0 base_thickness_d_1 round_0_3 round_m0_3 round_0_6
  by (simp add: build_calligraphy_mesh_d_def mesh_loop_d.simps rd_def wr_def
      nib_direction_d_def base_thickness_d_def mesh_thickness_d_eq_segment_thickness_d
      quad_vertices_d_def quad_indices_def vec_minus_d_def vec_plus_d_def vec_times_d_def
      vec_divide_d_def
      length_squared_d_def sample_d_def blank_vertex_d_def double_eval Let_def)

text \<open>
  The theorem at that segment with opacity 2: the descriptor carries 2, the vertices 1.
\<close>

theorem emitted_alpha_range_witness:
  "(2::int) \<le> int (length [sample_d 0 0 1 0, sample_d 1 0 1 1])
   \<and> (1::int) \<le> int (length [blank_segment_d])
   \<and> (4::int) \<le> int (length [blank_vertex_d, blank_vertex_d, blank_vertex_d, blank_vertex_d])
   \<and> (6::int) \<le> int (length [0, 0, 0, 0, 0, 0 :: int])
   \<and> (\<exists>n segs'.
            calculate_calligraphy_segments_d (Some [sample_d 0 0 1 0, sample_d 1 0 1 1]) 2
                (Fin 1) (Fin 2) (Fin 0) (Fin 1) (Some [blank_segment_d]) 1
              = Some (n, Some segs')
            \<and> (\<forall>s \<in> set (emitted n (Some segs')). dseg_alpha s = Fin 2))
   \<and> (\<exists>n vs' ixs' c'.
            build_calligraphy_mesh_d (Some [sample_d 0 0 1 0, sample_d 1 0 1 1]) 2
                (Fin 1) (Fin 2) (Fin 0) (Fin 1)
                (Some [blank_vertex_d, blank_vertex_d, blank_vertex_d, blank_vertex_d]) 4
                (Some [0, 0, 0, 0, 0, 0]) 6 (Some 7)
              = Some (n, Some vs', Some ixs', c')
            \<and> (\<forall>v \<in> set (emitted n (Some vs')).
                  (\<exists>a b. (a, b) \<in> set (live_segments_d
                                         (take (nat 2) [sample_d 0 0 1 0, sample_d 1 0 1 1]))
                      \<and> dvtx_alpha v
                          = std_clamp (fmul (Fin 2) (segment_pressure_d a b)) (Fin 0) (Fin 1)
                      \<and> is_nan (dvtx_alpha v) = is_nan (fmul (Fin 2) (segment_pressure_d a b)))
                  \<and> (is_nan (dvtx_alpha v)
                       \<or> fle (Fin 0) (dvtx_alpha v) \<and> fle (dvtx_alpha v) (Fin 1))))
   \<and> build_calligraphy_mesh_d (Some [sample_d 0 0 1 0, sample_d 1 0 1 1]) 2
          (Fin 1) (Fin 2) (Fin 0) (Fin 1)
          (Some [blank_vertex_d, blank_vertex_d, blank_vertex_d, blank_vertex_d]) 4
          (Some [0, 0, 0, 0, 0, 0]) 6 (Some 7)
       = Some (4, Some [\<lparr>dvtx_x = Fin 0, dvtx_y = Fin (- (5404319552844595 / 2 ^ 54)),
                          dvtx_alpha = Fin 1\<rparr>,
                        \<lparr>dvtx_x = Fin 0, dvtx_y = Fin (5404319552844595 / 2 ^ 54),
                          dvtx_alpha = Fin 1\<rparr>,
                        \<lparr>dvtx_x = Fin 1, dvtx_y = Fin (- (5404319552844595 / 2 ^ 54)),
                          dvtx_alpha = Fin 1\<rparr>,
                        \<lparr>dvtx_x = Fin 1, dvtx_y = Fin (5404319552844595 / 2 ^ 54),
                          dvtx_alpha = Fin 1\<rparr>],
               Some [0, 2, 1, 1, 2, 3], Some 6)"
proof -
  have h1: "(2::int) \<le> int (length [sample_d 0 0 1 0, sample_d 1 0 1 1])" by simp
  have h2: "(1::int) \<le> int (length [blank_segment_d])" by simp
  have h3: "(4::int) \<le> int (length [blank_vertex_d, blank_vertex_d, blank_vertex_d,
      blank_vertex_d])"
    by simp
  have h4: "(6::int) \<le> int (length [0, 0, 0, 0, 0, 0 :: int])" by simp
  from emitted_alpha_range [OF h1 h2 h3 h4, where stroke_width = "Fin 1" and opacity = "Fin 2"
      and nib_angle_deg = "Fin 0" and nib_width_factor = "Fin 1" and c = 7]
    h1 h2 h3 h4 mesh_example_d
  show ?thesis by blast
qed

text \<open>
  C2 as stated fails twice. With opacity 2 the descriptor of the segment from \<open>(0,0)\<close> to
  \<open>(1,0)\<close> carries opacity 2 (line 157 stores the parameter). With opacity 0 and the
  finite pressure \<open>2^1023\<close> at both samples, the sum of the pressures overflows, the average
  pressure is \<open>+infinity\<close>, \<open>opacity * pressure\<close> is NaN, and \<open>std::clamp\<close> returns it:
  all four vertices carry alpha NaN (their thickness is infinite, so their coordinates are
  NaN and infinite as well).
\<close>

lemma round_big_pressure: "round_to_double (2 ^ 1023 + 2 ^ 1023) = PInf"
  by (rule round_to_double_overflow) (simp add: overflow_bound_def)

theorem alpha_unclamped_or_nan:
  "calculate_calligraphy_segments_d (Some [sample_d 0 0 1 0, sample_d 1 0 1 1]) 2 (Fin 1) (Fin 2)
       (Fin 0) (Fin 1) (Some [blank_segment_d]) 1
     = Some (1, Some [\<lparr>dseg_x1 = Fin 0, dseg_y1 = Fin 0, dseg_x2 = Fin 1, dseg_y2 = Fin 0,
                       dseg_thickness = lit_0_6, dseg_alpha = Fin 2\<rparr>])
   \<and> \<not> fle (Fin 2) (Fin 1)
   \<and> build_calligraphy_mesh_d (Some [sample_d 0 0 (2 ^ 1023) 0, sample_d 1 0 (2 ^ 1023) 1]) 2
       (Fin 1) (Fin 0) (Fin 0) (Fin 1)
       (Some [blank_vertex_d, blank_vertex_d, blank_vertex_d, blank_vertex_d]) 4
       (Some [0, 0, 0, 0, 0, 0]) 6 (Some 7)
     = Some (4, Some [\<lparr>dvtx_x = NaN, dvtx_y = MInf, dvtx_alpha = NaN\<rparr>,
                      \<lparr>dvtx_x = NaN, dvtx_y = PInf, dvtx_alpha = NaN\<rparr>,
                      \<lparr>dvtx_x = NaN, dvtx_y = MInf, dvtx_alpha = NaN\<rparr>,
                      \<lparr>dvtx_x = NaN, dvtx_y = PInf, dvtx_alpha = NaN\<rparr>],
             Some [0, 2, 1, 1, 2, 3], Some 6)
   \<and> \<not> fle (Fin 0) NaN
   \<and> round_to_double (2 ^ 1023) = Fin (2 ^ 1023)"
proof -
  have m: "build_calligraphy_mesh_d (Some [sample_d 0 0 (2 ^ 1023) 0, sample_d 1 0 (2 ^ 1023) 1]) 2
       (Fin 1) (Fin 0) (Fin 0) (Fin 1)
       (Some [blank_vertex_d, blank_vertex_d, blank_vertex_d, blank_vertex_d]) 4
       (Some [0, 0, 0, 0, 0, 0]) 6 (Some 7)
     = Some (4, Some [\<lparr>dvtx_x = NaN, dvtx_y = MInf, dvtx_alpha = NaN\<rparr>,
                      \<lparr>dvtx_x = NaN, dvtx_y = PInf, dvtx_alpha = NaN\<rparr>,
                      \<lparr>dvtx_x = NaN, dvtx_y = MInf, dvtx_alpha = NaN\<rparr>,
                      \<lparr>dvtx_x = NaN, dvtx_y = PInf, dvtx_alpha = NaN\<rparr>],
             Some [0, 2, 1, 1, 2, 3], Some 6)"
    using nib_direction_d_0 base_thickness_d_1 round_big_pressure round_thickness_offset
    by (simp add: build_calligraphy_mesh_d_def mesh_loop_d.simps rd_def wr_def
        nib_direction_d_def base_thickness_d_def mesh_thickness_d_def cross_d_def
        quad_vertices_d_def quad_indices_def vec_minus_d_def vec_plus_d_def vec_times_d_def
        vec_divide_d_def
        length_squared_d_def sample_d_def blank_vertex_d_def double_eval Let_def)
  from calc_example m round_2_1023 show ?thesis by simp
qed

section \<open>Resampling in double arithmetic: the emitted sequence\<close>

text \<open>
  The loop emits at most one sample per input sample; every sample it emits passes the
  spacing test, as the code computes it, against the one emitted before it.
\<close>

lemma successively_butlast: "successively P xs \<Longrightarrow> successively P (butlast xs)"
proof (cases "xs = []")
  case True
  then show ?thesis by simp
next
  case False
  assume "successively P xs"
  then have "successively P (butlast xs @ [last xs])"
    using False by simp
  then show ?thesis
    by (simp only: successively_append_iff)
qed

lemma resample_walk_length: "length (resample_walk sp2 lp ps) \<le> length ps"
  by (induction ps arbitrary: lp) (auto simp: le_SucI)

lemma resample_walk_all:
  "length (resample_walk sp2 lp ps) = length ps \<Longrightarrow> resample_walk sp2 lp ps = ps"
proof (induction ps arbitrary: lp)
  case Nil
  then show ?case by simp
next
  case (Cons p ps)
  show ?case
  proof (cases "spaced_d sp2 lp p")
    case True
    with Cons show ?thesis by simp
  next
    case False
    with Cons.prems resample_walk_length [of sp2 lp ps] show ?thesis by simp
  qed
qed

lemma resample_walk_successively:
  "successively (spaced_d sp2) (lp # resample_walk sp2 lp ps)"
  by (induction ps arbitrary: lp) auto

lemma successively_take: "successively P xs \<Longrightarrow> successively P (take k xs)"
proof -
  assume "successively P xs"
  then have "successively P (take k xs @ drop k xs)" by simp
  then show ?thesis by (simp only: successively_append_iff)
qed

lemma take_append_le: "k \<le> length xs \<Longrightarrow> take k (xs @ ys) = take k xs"
  by simp

text \<open>
  The loop, started at sample \<open>i\<close> with \<open>out\<close> samples stored and \<open>last_pt\<close> stored last,
  appends the samples of \<open>resample_walk\<close> from \<open>i\<close> on, as many as the capacity allows.
\<close>

lemma resample_loop_d_result:
  "nat (n - i) = k \<Longrightarrow> 0 \<le> i \<Longrightarrow> n \<le> int (length pts) \<Longrightarrow> 0 \<le> out \<Longrightarrow> out \<le> m \<Longrightarrow>
   m \<le> int (length buf) \<Longrightarrow>
   \<exists>buf'. resample_loop_d (Some pts) n sp2 m i out last_pt (Some buf)
        = Some (min (out + int (length (resample_walk sp2 last_pt
                                           (drop (nat i) (take (nat n) pts))))) m,
                Some buf')
      \<and> length buf' = length buf
      \<and> take (nat (min (out + int (length (resample_walk sp2 last_pt
                                               (drop (nat i) (take (nat n) pts))))) m)) buf'
          = take (nat out) buf
            @ take (nat (m - out))
                (resample_walk sp2 last_pt (drop (nat i) (take (nat n) pts)))"
proof (induction k arbitrary: i out last_pt buf)
  case 0
  then have ge: "n \<le> i" by simp
  then have "\<not> i < n" by simp
  moreover have "drop (nat i) (take (nat n) pts) = []"
    using 0 ge by simp
  ultimately show ?case using 0 by (simp add: resample_loop_d.simps min_def)
next
  case (Suc k)
  then have lt: "i < n" by simp
  let ?p = "pts ! nat i"
  let ?rest = "drop (nat (i + 1)) (take (nat n) pts)"
  have d: "drop (nat i) (take (nat n) pts) = ?p # ?rest"
  proof -
    have "nat i < length (take (nat n) pts)" using Suc.prems lt by simp
    then have "drop (nat i) (take (nat n) pts)
        = take (nat n) pts ! nat i # drop (Suc (nat i)) (take (nat n) pts)"
      by (rule Cons_nth_drop_Suc [symmetric])
    moreover have "take (nat n) pts ! nat i = ?p" using Suc.prems lt by simp
    moreover have "Suc (nat i) = nat (i + 1)" using Suc.prems by simp
    ultimately show ?thesis by simp
  qed
  let ?W = "resample_walk sp2 last_pt (drop (nat i) (take (nat n) pts))"
  show ?case
  proof (cases "out < m")
    case False
    with Suc.prems have "out = m" by simp
    then show ?thesis using lt by (simp add: resample_loop_d.simps)
  next
    case True
    have r: "rd (Some pts) i = Some ?p"
      using Suc.prems lt by (simp add: rd_Some)
    show ?thesis
    proof (cases "spaced_d sp2 last_pt ?p")
      case False
      let ?W' = "resample_walk sp2 last_pt ?rest"
      have W0: "?W = ?W'" using False by (simp only: d resample_walk.simps if_False)
      have "\<exists>buf'. resample_loop_d (Some pts) n sp2 m (i + 1) out last_pt (Some buf)
          = Some (min (out + int (length ?W')) m, Some buf')
        \<and> length buf' = length buf
        \<and> take (nat (min (out + int (length ?W')) m)) buf'
            = take (nat out) buf @ take (nat (m - out)) ?W'"
        using Suc.prems lt by (intro Suc.IH) simp_all
      moreover have "resample_loop_d (Some pts) n sp2 m i out last_pt (Some buf)
          = resample_loop_d (Some pts) n sp2 m (i + 1) out last_pt (Some buf)"
        using lt True r False by (subst resample_loop_d.simps) (simp add: spaced_d_def)
      ultimately show ?thesis by (simp only: W0)
    next
      case far: True
      let ?W' = "resample_walk sp2 ?p ?rest"
      have W1: "?W = ?p # ?W'" using far by (simp only: d resample_walk.simps if_True)
      let ?buf = "buf[nat out := ?p]"
      have w: "wr (Some buf) out ?p = Some (Some ?buf)"
        using Suc.prems True by (simp add: wr_Some)
      have "\<exists>buf'. resample_loop_d (Some pts) n sp2 m (i + 1) (out + 1) ?p (Some ?buf)
          = Some (min (out + 1 + int (length ?W')) m, Some buf')
        \<and> length buf' = length ?buf
        \<and> take (nat (min (out + 1 + int (length ?W')) m)) buf'
            = take (nat (out + 1)) ?buf @ take (nat (m - (out + 1))) ?W'"
        using Suc.prems lt True by (intro Suc.IH) simp_all
      then obtain buf' where l:
        "resample_loop_d (Some pts) n sp2 m (i + 1) (out + 1) ?p (Some ?buf)
          = Some (min (out + 1 + int (length ?W')) m, Some buf')"
        "length buf' = length ?buf"
        "take (nat (min (out + 1 + int (length ?W')) m)) buf'
            = take (nat (out + 1)) ?buf @ take (nat (m - (out + 1))) ?W'"
        by blast
      have step: "resample_loop_d (Some pts) n sp2 m i out last_pt (Some buf)
          = resample_loop_d (Some pts) n sp2 m (i + 1) (out + 1) ?p (Some ?buf)"
        using lt True r far w
        by (subst resample_loop_d.simps) (simp add: spaced_d_def)
      have cnt: "out + int (length ?W) = out + 1 + int (length ?W')"
        by (simp add: W1)
      have tk: "take (nat (out + 1)) ?buf = take (nat out) buf @ [?p]"
        using Suc.prems True by (simp add: nat_succ take_update_snoc)
      have "nat (m - out) = Suc (nat (m - (out + 1)))" using True by simp
      then have tk2: "take (nat (m - out)) ?W = ?p # take (nat (m - (out + 1))) ?W'"
        by (simp add: W1)
      have g1: "resample_loop_d (Some pts) n sp2 m i out last_pt (Some buf)
          = Some (min (out + int (length ?W)) m, Some buf')"
        using l(1) by (simp only: step cnt)
      have g2: "length buf' = length buf"
        using l(2) by simp
      have g3: "take (nat (min (out + int (length ?W)) m)) buf'
          = take (nat out) buf @ take (nat (m - out)) ?W"
        using l(3) by (simp only: cnt tk tk2 append_assoc append_Cons append_Nil)
      from g1 g2 g3 show ?thesis by blast
    qed
  qed
qed

text \<open>
  C4 (as amended). In double arithmetic, for a non-empty input (\<open>1 \<le> input_count\<close>, all
  of it inside the input array) and an output capacity of at least 1 (inside the output
  array), \<open>resample_stroke_points\<close> emits exactly the first \<open>max_output\<close> elements of
  \<open>resample_sequence\<close>: the first input sample, then every later sample that passes the
  spacing test against the sample emitted before it, then the last input sample (once more
  when the loop has emitted it already; a single input sample is emitted once). So the first
  emitted sample is the first input sample; every consecutive pair of emitted samples except
  possibly the last pair passes the spacing test as the code computes it
  (\<open>dist2(...) >= spacing * spacing\<close> in rounded arithmetic, which is not the comparison of
  the exact squared distance, see \<open>spacing_test_rounds\<close>); and the last emitted sample is
  the last input sample exactly when that sequence fits the capacity or its element at
  position \<open>max_output\<close> is the last input sample, in particular whenever the capacity is
  at least \<open>input_count\<close>.
\<close>

theorem resample_output_sequence:
  assumes "1 \<le> input_count" and "input_count \<le> int (length pts)"
    and "1 \<le> max_output" and "max_output \<le> int (length buf)"
  shows "\<exists>n buf'.
      resample_stroke_points_d (Some pts) input_count spacing (Some buf) max_output
        = Some (n, Some buf')
      \<and> emitted n (Some buf')
          = take (nat max_output) (resample_sequence spacing (take (nat input_count) pts))
      \<and> length (emitted n (Some buf')) = nat n
      \<and> hd (emitted n (Some buf')) = pts ! 0
      \<and> successively (spaced_d (fmul spacing spacing)) (butlast (emitted n (Some buf')))
      \<and> (last (emitted n (Some buf')) = pts ! nat (input_count - 1))
          = (length (resample_sequence spacing (take (nat input_count) pts)) \<le> nat max_output
             \<or> resample_sequence spacing (take (nat input_count) pts) ! (nat max_output - 1)
                 = pts ! nat (input_count - 1))
      \<and> (input_count \<le> max_output
           \<longrightarrow> last (emitted n (Some buf')) = pts ! nat (input_count - 1))"
proof -
  let ?sp2 = "fmul spacing spacing"
  let ?ps = "take (nat input_count) pts"
  let ?seq = "resample_sequence spacing ?ps"
  let ?pl = "pts ! nat (input_count - 1)"
  have ps_len: "length ?ps = nat input_count" using assms by simp
  obtain qs where ps: "?ps = pts ! 0 # qs"
  proof -
    have "?ps \<noteq> []" using assms by auto
    then obtain x qs where xq: "?ps = x # qs" by (cases ?ps) auto
    have "x = ?ps ! 0" by (simp add: xq)
    also have "\<dots> = pts ! 0" using assms by simp
    finally show ?thesis using xq that by simp
  qed
  have qs: "qs = drop 1 ?ps" by (simp add: ps)
  have qlen: "length qs = nat input_count - 1" using ps_len by (simp add: ps)
  have lastq: "qs \<noteq> [] \<Longrightarrow> last qs = ?pl"
  proof -
    assume ne: "qs \<noteq> []"
    have "last qs = last ?ps" using ne by (simp add: ps)
    also have "\<dots> = ?ps ! (length ?ps - 1)"
      by (rule last_conv_nth) (simp add: ps)
    also have "\<dots> = pts ! (nat input_count - 1)"
      using assms by (simp add: ps_len)
    also have "nat input_count - 1 = nat (input_count - 1)" using assms by simp
    finally show ?thesis .
  qed
  let ?W = "resample_walk ?sp2 (pts ! 0) qs"
  have seq: "?seq = (if qs = [] then [pts ! 0] else pts ! 0 # ?W @ [?pl])"
    using lastq by (simp add: resample_sequence_def ps)
  have r0: "rd (Some pts) 0 = Some (pts ! 0)"
    using assms by (auto simp: rd_def)
  let ?buf1 = "buf[0 := pts ! 0]"
  have w0: "wr (Some buf) 0 (pts ! 0) = Some (Some ?buf1)"
    using assms by (auto simp: wr_def)
  have t1: "take (Suc 0) ?buf1 = [pts ! 0]"
    using assms by (cases buf) simp_all
  have main: "\<exists>n buf'.
      resample_stroke_points_d (Some pts) input_count spacing (Some buf) max_output
        = Some (n, Some buf')
      \<and> emitted n (Some buf') = take (nat max_output) ?seq \<and> 0 \<le> n \<and> n \<le> int (length buf')"
  proof (cases "input_count = 1")
    case True
    then have "qs = []" using qlen by simp
    then have s1: "?seq = [pts ! 0]" using seq by simp
    have "resample_stroke_points_d (Some pts) input_count spacing (Some buf) max_output
          = Some (1, Some ?buf1)"
      using assms True r0 w0 by (simp add: resample_stroke_points_d_def)
    moreover have "emitted 1 (Some ?buf1) = take (nat max_output) [pts ! 0]"
      using assms t1 by (simp add: emitted_def)
    ultimately show ?thesis using s1 assms by auto
  next
    case False
    with assms have n2: "2 \<le> input_count" by simp
    then have qne: "qs \<noteq> []" using qlen by auto
    then have s2: "?seq = pts ! 0 # ?W @ [?pl]" using seq by simp
    have dq: "drop (nat 1) ?ps = qs" using qs by simp
    let ?out = "min (1 + int (length ?W)) max_output"
    have "\<exists>buf'. resample_loop_d (Some pts) input_count ?sp2 max_output 1 1 (pts ! 0) (Some ?buf1)
        = Some (min (1 + int (length (resample_walk ?sp2 (pts ! 0) (drop (nat 1) ?ps))))
                  max_output, Some buf')
      \<and> length buf' = length ?buf1
      \<and> take (nat (min (1 + int (length (resample_walk ?sp2 (pts ! 0) (drop (nat 1) ?ps))))
                  max_output)) buf'
          = take (nat 1) ?buf1
            @ take (nat (max_output - 1)) (resample_walk ?sp2 (pts ! 0) (drop (nat 1) ?ps))"
      using assms by (intro resample_loop_d_result [OF refl]) simp_all
    then obtain buf2 where l:
      "resample_loop_d (Some pts) input_count ?sp2 max_output 1 1 (pts ! 0) (Some ?buf1)
        = Some (?out, Some buf2)"
      "length buf2 = length buf"
      "take (nat ?out) buf2 = [pts ! 0] @ take (nat (max_output - 1)) ?W"
      unfolding dq using t1 by auto
    show ?thesis
    proof (cases "?out < max_output")
      case True
      then have out: "?out = 1 + int (length ?W)" by (simp add: min_def split: if_splits)
      have fits: "length ?W < nat (max_output - 1)" using True out by simp
      let ?buf3 = "buf2[nat ?out := ?pl]"
      have rl: "rd (Some pts) (input_count - 1) = Some ?pl"
        using assms by (auto simp: rd_def)
      have wl: "wr (Some buf2) ?out ?pl = Some (Some ?buf3)"
        using assms l(2) True by (auto simp: wr_def)
      have res: "resample_stroke_points_d (Some pts) input_count spacing (Some buf) max_output
            = Some (?out + 1, Some ?buf3)"
        using assms False r0 w0 l(1) True rl wl
        by (simp add: resample_stroke_points_d_def)
      have lt: "nat ?out < length buf2" using assms l(2) True by simp
      have "0 \<le> ?out" using assms by simp
      then have "nat (?out + 1) = Suc (nat ?out)" by (rule nat_succ)
      then have "emitted (?out + 1) (Some ?buf3) = take (nat ?out) buf2 @ [?pl]"
        using lt by (simp only: emitted_def option.case take_update_snoc)
      moreover have "take (nat (max_output - 1)) ?W = ?W" using fits by simp
      then have "take (nat ?out) buf2 = pts ! 0 # ?W"
        using l(3) by (simp only: append_Cons append_Nil)
      moreover have "take (nat max_output) ?seq = pts ! 0 # ?W @ [?pl]"
        using fits s2 by simp
      ultimately have em: "emitted (?out + 1) (Some ?buf3) = take (nat max_output) ?seq"
        by (simp only: append_Cons)
      have "?out + 1 \<le> int (length ?buf3)" using lt by simp
      moreover have "0 \<le> ?out + 1" using assms by simp
      ultimately show ?thesis using res em by blast
    next
      case stop: False
      then have out: "?out = max_output" by (simp add: min_def split: if_splits)
      have full: "nat (max_output - 1) \<le> length ?W" using stop by (simp add: min_def split: if_splits)
      have res: "resample_stroke_points_d (Some pts) input_count spacing (Some buf) max_output
            = Some (max_output, Some buf2)"
        using assms False r0 w0 l(1) stop out
        by (simp add: resample_stroke_points_d_def)
      have "emitted max_output (Some buf2) = take (nat max_output) buf2"
        by (simp add: emitted_def)
      also have "\<dots> = pts ! 0 # take (nat (max_output - 1)) ?W"
        using l(3) out by simp
      also have "\<dots> = take (nat max_output) (pts ! 0 # ?W @ [?pl])"
      proof -
        have "nat max_output = Suc (nat (max_output - 1))" using assms by simp
        then show ?thesis using full by simp
      qed
      finally have em: "emitted max_output (Some buf2) = take (nat max_output) ?seq"
        by (simp only: s2)
      have "max_output \<le> int (length buf2)" using assms l(2) by simp
      moreover have "0 \<le> max_output" using assms by simp
      ultimately show ?thesis using res em by blast
    qed
  qed
  then obtain n buf' where r:
    "resample_stroke_points_d (Some pts) input_count spacing (Some buf) max_output
        = Some (n, Some buf')"
    "emitted n (Some buf') = take (nat max_output) ?seq" "0 \<le> n" "n \<le> int (length buf')"
    by blast
  have len: "length (emitted n (Some buf')) = nat n"
    using r(3,4) by (simp add: emitted_def)
  have h: "hd (take (nat max_output) ?seq) = pts ! 0"
  proof -
    have "0 < nat max_output" using assms by simp
    then have "hd (take (nat max_output) ?seq) = hd ?seq" by (rule hd_take)
    then show ?thesis using seq by simp
  qed
  have sp: "successively (spaced_d ?sp2) (butlast (take (nat max_output) ?seq))"
  proof (cases "qs = []")
    case True
    then show ?thesis using seq by (cases "nat max_output") simp_all
  next
    case False
    then have s2: "?seq = (pts ! 0 # ?W) @ [?pl]" using seq by simp
    have sw: "successively (spaced_d ?sp2) (pts ! 0 # ?W)"
      by (rule resample_walk_successively)
    show ?thesis
    proof (cases "nat max_output \<le> length (pts ! 0 # ?W)")
      case True
      then have "take (nat max_output) ((pts ! 0 # ?W) @ [?pl]) = take (nat max_output) (pts ! 0 # ?W)"
        by (rule take_append_le)
      then have "take (nat max_output) ?seq = take (nat max_output) (pts ! 0 # ?W)"
        by (simp only: s2)
      then show ?thesis
        using successively_butlast [OF successively_take [OF sw, of "nat max_output"]] by simp
    next
      case False
      then have "take (nat max_output) ?seq = ?seq" unfolding s2 by simp
      then show ?thesis using sw unfolding s2 by simp
    qed
  qed
  have fit: "last ?seq = ?pl"
  proof (cases "qs = []")
    case True
    then have "nat input_count = 1" using qlen assms by simp
    then have "?pl = pts ! 0" by simp
    then show ?thesis using True seq by simp
  next
    case False
    then show ?thesis using seq by simp
  qed
  have la: "(last (take (nat max_output) ?seq) = ?pl)
      = (length ?seq \<le> nat max_output \<or> ?seq ! (nat max_output - 1) = ?pl)"
  proof (cases "length ?seq \<le> nat max_output")
    case True
    then have "take (nat max_output) ?seq = ?seq" by simp
    then show ?thesis using True fit by simp
  next
    case False
    then have lt: "nat max_output < length ?seq" by simp
    have pos: "0 < nat max_output" using assms by simp
    have ne: "take (nat max_output) ?seq \<noteq> []" using lt pos by auto
    have "last (take (nat max_output) ?seq)
        = take (nat max_output) ?seq ! (length (take (nat max_output) ?seq) - 1)"
      using ne by (rule last_conv_nth)
    also have "length (take (nat max_output) ?seq) = nat max_output" using lt by simp
    also have "take (nat max_output) ?seq ! (nat max_output - 1) = ?seq ! (nat max_output - 1)"
      using pos by simp
    finally show ?thesis using False by simp
  qed
  have lb: "input_count \<le> max_output \<longrightarrow> last (take (nat max_output) ?seq) = ?pl"
  proof
    assume le: "input_count \<le> max_output"
    show "last (take (nat max_output) ?seq) = ?pl"
    proof (cases "length ?seq \<le> nat max_output")
      case True
      then have "take (nat max_output) ?seq = ?seq" by simp
      then show ?thesis using fit by simp
    next
      case over: False
      have qne: "qs \<noteq> []"
      proof
        assume "qs = []"
        then have "length ?seq = 1" using seq by simp
        with over assms show False by simp
      qed
      then have s2: "?seq = pts ! 0 # ?W @ [?pl]" using seq by simp
      have wl: "length ?W \<le> length qs" by (rule resample_walk_length)
      have "length ?seq = length ?W + 2" using s2 by simp
      with over le wl qlen assms have eq: "length ?W = length qs"
        and m: "nat max_output = Suc (length qs)"
        by linarith+
      from eq have W: "?W = qs" by (rule resample_walk_all)
      have "take (nat max_output) ?seq = pts ! 0 # qs"
        using s2 W m by simp
      then show ?thesis using qne lastq by simp
    qed
  qed
  from r(1) len h sp la lb show ?thesis
    unfolding r(2) [symmetric] using r(2) by blast
qed

text \<open>The theorem at the spec's example, with capacity 4.\<close>

lemma resample_example_d:
  "resample_stroke_points_d
     (Some [sample_d 0 0 1 0, sample_d 10 0 1 1, sample_d 20 0 1 2]) 3 (Fin 5)
     (Some [zero_point_d, zero_point_d, zero_point_d, zero_point_d]) 4
   = Some (4, Some [sample_d 0 0 1 0, sample_d 10 0 1 1, sample_d 20 0 1 2, sample_d 20 0 1 2])"
  by (simp add: resample_stroke_points_d_def resample_loop_d.simps rd_def wr_def dist2_d_def
      sample_d_def double_eval)

theorem resample_output_sequence_witness:
  "(1::int) \<le> 3
   \<and> (3::int) \<le> int (length [sample_d 0 0 1 0, sample_d 10 0 1 1, sample_d 20 0 1 2])
   \<and> (1::int) \<le> 4
   \<and> (4::int) \<le> int (length [zero_point_d, zero_point_d, zero_point_d, zero_point_d])
   \<and> (\<exists>n buf'.
      resample_stroke_points_d (Some [sample_d 0 0 1 0, sample_d 10 0 1 1, sample_d 20 0 1 2]) 3
          (Fin 5) (Some [zero_point_d, zero_point_d, zero_point_d, zero_point_d]) 4
        = Some (n, Some buf')
      \<and> emitted n (Some buf')
          = take (nat 4) (resample_sequence (Fin 5)
                            (take (nat 3) [sample_d 0 0 1 0, sample_d 10 0 1 1, sample_d 20 0 1 2]))
      \<and> length (emitted n (Some buf')) = nat n
      \<and> hd (emitted n (Some buf')) = [sample_d 0 0 1 0, sample_d 10 0 1 1, sample_d 20 0 1 2] ! 0
      \<and> successively (spaced_d (fmul (Fin 5) (Fin 5))) (butlast (emitted n (Some buf')))
      \<and> (last (emitted n (Some buf'))
             = [sample_d 0 0 1 0, sample_d 10 0 1 1, sample_d 20 0 1 2] ! nat (3 - 1))
          = (length (resample_sequence (Fin 5)
                       (take (nat 3) [sample_d 0 0 1 0, sample_d 10 0 1 1, sample_d 20 0 1 2]))
               \<le> nat 4
             \<or> resample_sequence (Fin 5)
                   (take (nat 3) [sample_d 0 0 1 0, sample_d 10 0 1 1, sample_d 20 0 1 2])
                 ! (nat 4 - 1)
                 = [sample_d 0 0 1 0, sample_d 10 0 1 1, sample_d 20 0 1 2] ! nat (3 - 1))
      \<and> ((3::int) \<le> 4
           \<longrightarrow> last (emitted n (Some buf'))
                 = [sample_d 0 0 1 0, sample_d 10 0 1 1, sample_d 20 0 1 2] ! nat (3 - 1)))
   \<and> resample_stroke_points_d (Some [sample_d 0 0 1 0, sample_d 10 0 1 1, sample_d 20 0 1 2]) 3
          (Fin 5) (Some [zero_point_d, zero_point_d, zero_point_d, zero_point_d]) 4
       = Some (4, Some [sample_d 0 0 1 0, sample_d 10 0 1 1, sample_d 20 0 1 2,
                        sample_d 20 0 1 2])"
proof -
  have h1: "(1::int) \<le> 3" by simp
  have h2: "(3::int) \<le> int (length [sample_d 0 0 1 0, sample_d 10 0 1 1, sample_d 20 0 1 2])"
    by simp
  have h3: "(1::int) \<le> 4" by simp
  have h4: "(4::int) \<le> int (length [zero_point_d, zero_point_d, zero_point_d, zero_point_d])"
    by simp
  from resample_output_sequence [OF h1 h2 h3 h4, of "Fin 5"] h1 h2 h3 h4 resample_example_d
  show ?thesis by blast
qed

text \<open>
  C4 as stated fails when the capacity is exhausted by the loop: the spec's example with
  capacity 2 emits \<open>(0,0)\<close> and \<open>(10,0)\<close>, then the guard of line 251 skips the last input
  sample \<open>(20,0)\<close>.
\<close>

theorem resample_capacity_2_drops_last:
  "resample_stroke_points_d (Some [sample_d 0 0 1 0, sample_d 10 0 1 1, sample_d 20 0 1 2]) 3
       (Fin 5) (Some [zero_point_d, zero_point_d]) 2
     = Some (2, Some [sample_d 0 0 1 0, sample_d 10 0 1 1])
   \<and> sample_d 20 0 1 2 \<notin> set (emitted 2 (Some [sample_d 0 0 1 0, sample_d 10 0 1 1]))"
  by (simp add: resample_stroke_points_d_def resample_loop_d.simps rd_def wr_def dist2_d_def
      sample_d_def emitted_def double_eval)

text \<open>
  The spacing test is a test of rounded values. For the doubles nearest to \<open>0.45\<close> and
  \<open>0.6\<close> and the spacing \<open>0.75\<close>, the code computes
  \<open>0.45 * 0.45 + 0.6 * 0.6 = 0.5625 = 0.75 * 0.75\<close> and the sample \<open>(0.45, 0.6)\<close> passes
  the test against \<open>(0, 0)\<close>, while the exact squared distance of the two samples is below
  the exact square of the spacing.
\<close>

lemma round_0_45_squared:
  "round_to_double (8106479329266893 / 2 ^ 54 * (8106479329266893 / 2 ^ 54))
     = Fin (7295831396340204 / 2 ^ 55)"
  using round_to_double_normal
    [of "- 3" "8106479329266893 / 2 ^ 54 * (8106479329266893 / 2 ^ 54)" 7295831396340204]
  by (simp add: round_half_even_def power_int_minus_divide overflow_bound_def)

lemma round_0_6_squared:
  "round_to_double (5404319552844595 / 2 ^ 53 * (5404319552844595 / 2 ^ 53))
     = Fin (6485183463413514 / 2 ^ 54)"
  using round_to_double_normal
    [of "- 2" "5404319552844595 / 2 ^ 53 * (5404319552844595 / 2 ^ 53)" 6485183463413514]
  by (simp add: round_half_even_def power_int_minus_divide overflow_bound_def)

lemma round_9_16: "round_to_double (9 / 16) = Fin (9 / 16)"
  using round_to_double_dyadic [of 9 4] by simp

lemma round_0_45: "round_to_double (8106479329266893 / 2 ^ 54) = Fin (8106479329266893 / 2 ^ 54)"
  using round_to_double_dyadic [of 8106479329266893 54] by simp

lemma lit_0_45: "round_to_double (45 / 100) = Fin (8106479329266893 / 2 ^ 54)"
  using round_to_double_normal [of "- 2" "45 / 100" 8106479329266893]
  by (simp add: round_half_even_def power_int_minus_divide overflow_bound_def)

lemma lit_0_75: "round_to_double (75 / 100) = Fin (3 / 4)"
  using round_to_double_dyadic [of 3 2] by simp

lemma spacing_test_rounds:
  "spaced_d (fmul (Fin (3 / 4)) (Fin (3 / 4))) (sample_d 0 0 1 0)
       (sample_d (8106479329266893 / 2 ^ 54) (5404319552844595 / 2 ^ 53) 1 1)
   \<and> (8106479329266893 / 2 ^ 54) ^ 2 + (5404319552844595 / 2 ^ 53) ^ 2 < (3 / 4 :: real) ^ 2"
  using round_0_45_squared round_0_6_squared round_9_16 round_0_45 round_0_6
  by (simp add: spaced_d_def dist2_d_def sample_d_def double_eval power2_eq_square)

section \<open>Simplification in double arithmetic: three points\<close>







text \<open>
  A middle sample beyond an end sample is dropped as well when it is within \<open>epsilon\<close> of
  the segment: \<open>(0,0)\<close>, \<open>(10.5,0)\<close>, \<open>(10,0)\<close> with \<open>epsilon = 1\<close> have the projection
  parameter \<open>1.05\<close>, clamped to 1, and the deviation \<open>0.25\<close>.
\<close>

lemma round_1_05: "round_to_double (105 / 100) = Fin (4728779608739021 / 2 ^ 52)"
  using round_to_double_normal [of 0 "105 / 100" 4728779608739021]
  by (simp add: round_half_even_def overflow_bound_def)

lemma round_quarter: "round_to_double (1 / 4) = Fin (1 / 4)"
  using round_to_double_dyadic [of 1 2] by simp

lemma round_minus_half: "round_to_double (- (1 / 2)) = Fin (- (1 / 2))"
  using round_to_double_dyadic [of "- 1" 1] by simp

lemma round_21_2: "round_to_double (21 / 2) = Fin (21 / 2)"
  using round_to_double_dyadic [of 21 1] by simp

lemma simplify_beyond_end_within_epsilon:
  "simplify_stroke_rdp_d (Some [sample_d 0 0 1 0, sample_d (21 / 2) 0 1 1, sample_d 10 0 1 2]) 3
       (Fin 1) (Some [zero_point_d, zero_point_d, zero_point_d]) 3
     = Some (2, Some [sample_d 0 0 1 0, sample_d 10 0 1 2, zero_point_d])"
  using round_1_05 round_quarter round_minus_half round_21_2
  by (simp add: simplify_stroke_rdp_d_def copy_loop.simps rdp_d.simps rdp_scan_d.simps rd_def
      wr_def sample_d_def zero_point_d_def deviation2_d_def dist2_d_def eval_nat_numeral
      double_eval)

text \<open>
  C8 as stated fails for collinear samples. \<open>(0,0)\<close>, \<open>(10,0)\<close>, \<open>(5,0)\<close> are exactly
  collinear, the middle one lies beyond the last: its projection parameter is clamped to 1
  (line 285), its deviation is 25 > 1, and all three samples are returned for
  \<open>epsilon = 1\<close>. \<open>(0,0)\<close>, \<open>(63,0)\<close>, \<open>(90,0)\<close> are exactly collinear and the middle one
  lies between the other two: the code computes \<open>t = 5670 / 8100\<close>, rounded to the double
  nearest to \<open>0.7\<close>, then \<open>projx = t * 90\<close>, rounded to \<open>63 - 2^(-47)\<close>, and
  \<open>d2 = 2^(-94)\<close>, which is above 0 and above \<open>epsilon * epsilon = 2^(-100)\<close> for
  \<open>epsilon = 2^(-50) > 0\<close>: all three samples are returned.
\<close>

lemma round_0_7: "round_to_double (5670 / 8100) = Fin (3152519739159347 / 2 ^ 52)"
  using round_to_double_normal [of "- 1" "5670 / 8100" 6305039478318694]
  by (simp add: round_half_even_def power_int_minus_divide overflow_bound_def)

lemma round_0_7_times_90:
  "round_to_double (3152519739159347 / 2 ^ 52 * 90) = Fin (8866461766385663 / 2 ^ 47)"
  using round_to_double_normal [of 5 "3152519739159347 / 2 ^ 52 * 90" 8866461766385663]
  by (simp add: round_half_even_def power_int_minus_divide overflow_bound_def)

lemma round_proj: "round_to_double (8866461766385663 / 2 ^ 47) = Fin (8866461766385663 / 2 ^ 47)"
  using round_to_double_dyadic [of 8866461766385663 47] by simp

lemma round_dx: "round_to_double (- (1 / 2 ^ 47)) = Fin (- (1 / 2 ^ 47))"
  using round_to_double_dyadic [of "- 1" 47] by simp

lemma round_dx2: "round_to_double (1 / 2 ^ 94) = Fin (1 / 2 ^ 94)"
  using round_to_double_dyadic [of 1 94] by simp



lemma middle_deviation2_rounds:
  "middle_deviation2 (sample_d 0 0 1 0) (sample_d 63 0 1 1) (sample_d 90 0 1 2) = Fin (1 / 2 ^ 94)"
  using round_0_7 round_0_7_times_90 round_proj round_dx round_dx2
  by (simp add: middle_deviation2_def deviation2_d_def dist2_d_def sample_d_def double_eval)


end
